theory Spec2Isabelle
  imports Complex_Main "HOL-Library.Log_Nat" "HOL-Library.Char_ord" "HOL-Library.List_Lexorder"
    "HOL-Library.Multiset"
begin

section \<open>Python strings\<close>

text \<open>
  A Python \<open>str\<close> is modelled as a \<open>string\<close>, a list of 8-bit characters read as the code
  points 0 to 255 (Latin-1 text): \<open>len\<close> is \<open>length\<close>, \<open>==\<close> is equality and \<open><\<close> is the
  lexicographic order of the code points. Among these code points the whitespace of
  \<open>str.strip\<close> and \<open>str.split\<close> is 9-13, 28-32, 133 (next line) and 160 (no-break space);
  the digits of \<open>\d\<close> are \<open>0\<close>-\<open>9\<close>; and \<open>str.lower\<close> changes the capitals \<open>A\<close>-\<open>Z\<close> (65-90) and
  the accented capitals 192-222 other than the multiplication sign 215, each to the code
  point 32 above it.
\<close>

definition is_space :: "char \<Rightarrow> bool" where
  "is_space c =
     (let n = (of_char c :: nat)
      in (9 \<le> n \<and> n \<le> 13) \<or> (28 \<le> n \<and> n \<le> 32) \<or> n = 133 \<or> n = 160)"

definition is_digit :: "char \<Rightarrow> bool" where
  "is_digit c = (let n = (of_char c :: nat) in 48 \<le> n \<and> n \<le> 57)"

definition lower_char :: "char \<Rightarrow> char" where
  "lower_char c =
     (let n = (of_char c :: nat)
      in if (65 \<le> n \<and> n \<le> 90) \<or> (192 \<le> n \<and> n \<le> 222 \<and> n \<noteq> 215)
         then char_of (n + 32) else c)"

text \<open>\<open>s.lower()\<close>\<close>

definition str_lower :: "string \<Rightarrow> string" where
  "str_lower s = map lower_char s"

text \<open>\<open>s.strip()\<close>\<close>

definition str_strip :: "string \<Rightarrow> string" where
  "str_strip s = rev (dropWhile is_space (rev (dropWhile is_space s)))"

text \<open>\<open>s.split(sep)\<close> for a one-character separator: empty pieces are kept, and the
  result always has at least one piece.\<close>

fun str_split :: "char \<Rightarrow> string \<Rightarrow> string list" where
  "str_split sep [] = [[]]"
| "str_split sep (c # cs) =
     (if c = sep then [] # str_split sep cs
      else (case str_split sep cs of
              [] \<Rightarrow> [[c]]
            | piece # pieces \<Rightarrow> (c # piece) # pieces))"

text \<open>\<open>s.split()\<close>: the maximal runs of non-whitespace characters. The first argument is
  the word being read, reversed.\<close>

fun split_ws_from :: "string \<Rightarrow> string \<Rightarrow> string list" where
  "split_ws_from w [] = (if w = [] then [] else [rev w])"
| "split_ws_from w (c # cs) =
     (if is_space c
      then (if w = [] then split_ws_from [] cs else rev w # split_ws_from [] cs)
      else split_ws_from (c # w) cs)"

definition str_split_ws :: "string \<Rightarrow> string list" where
  "str_split_ws s = split_ws_from [] s"

text \<open>\<open>sub in s\<close> for two strings: \<open>sub\<close> occurs in \<open>s\<close> as a substring.\<close>

definition str_contains :: "string \<Rightarrow> string \<Rightarrow> bool" where
  "str_contains sub s = list_ex (\<lambda>i. take (length sub) (drop i s) = sub) [0..<Suc (length s)]"

section \<open>Dropdown values and the reducers of the two multi-select dropdowns\<close>

text \<open>The value of a dropdown as Dash hands it to a callback: \<open>None\<close>, one string, or a
  list of strings.\<close>

datatype pyval = PyNone | PyStr string | PyList "string list"

fun update_brand_dropdown :: "pyval \<Rightarrow> pyval" where
  "update_brand_dropdown PyNone = PyStr ''ALL''"
| "update_brand_dropdown (PyList selected_brands) =
     (if length selected_brands > 1 \<and> ''ALL'' \<in> set selected_brands
      then PyList (filter (\<lambda>b. b \<noteq> ''ALL'') selected_brands)
      else if selected_brands = [''ALL''] then PyStr ''ALL''
      else if length selected_brands = 0 then PyStr ''ALL''
      else PyList selected_brands)"
| "update_brand_dropdown (PyStr selected_brands) = PyStr selected_brands"

fun update_drivetrain_dropdown :: "pyval \<Rightarrow> pyval" where
  "update_drivetrain_dropdown PyNone = PyStr ''ALL''"
| "update_drivetrain_dropdown (PyList selected_drivetrain) =
     (if length selected_drivetrain > 1 \<and> ''ALL'' \<in> set selected_drivetrain
      then PyList (filter (\<lambda>d. d \<noteq> ''ALL'') selected_drivetrain)
      else if selected_drivetrain = [''ALL''] then PyStr ''ALL''
      else if length selected_drivetrain = 0 then PyStr ''ALL''
      else PyList selected_drivetrain)"
| "update_drivetrain_dropdown (PyStr selected_drivetrain) = PyStr selected_drivetrain"

section \<open>The rows of \<open>df_plot\<close> and the filters of \<open>update_visualization\<close>\<close>

text \<open>The exceptions that the modelled code can raise.\<close>

datatype error = OverflowError | ValueError | AttributeError

text \<open>
  A cell of a text column of the frame: a \<open>str\<close>, or NaN where the CSV file has nothing.
  \<open>df_plot\<close> drops the rows without \<open>Brand\<close> or \<open>Time_sec\<close> only, so \<open>Model\<close> and
  \<open>ChassisCode\<close> can be NaN in a row of \<open>df_plot\<close>. \<open>cell_lower\<close> is \<open>.lower()\<close> on a cell,
  which a float does not have; \<open>cell_format\<close> is the text an f-string puts for the cell.
\<close>

datatype cell = CellStr string | CellNaN

definition cell_lower :: "cell \<Rightarrow> error + string" where
  "cell_lower c = (case c of CellStr s \<Rightarrow> Inr (str_lower s) | CellNaN \<Rightarrow> Inl AttributeError)"

definition cell_format :: "cell \<Rightarrow> string" where
  "cell_format c = (case c of CellStr s \<Rightarrow> s | CellNaN \<Rightarrow> ''nan'')"

text \<open>
  A row of \<open>df_plot\<close>, with the columns the filters, the layout and the summary read.
  \<open>df_plot\<close> keeps only rows whose \<open>Time_sec\<close> is not NaN; a finite float is a rational
  number, and \<open>min\<close>, \<open>max\<close> and the comparisons of floats are exact, so \<open>Time_sec\<close> is a
  \<open>rat\<close>. \<open>Brand\<close> is a \<open>str\<close> (\<open>astype(str)\<close> after the rows without one are dropped).
  \<open>Drivetrain\<close> and \<open>EngineType\<close> are texts as well: the module sorts the distinct values of
  each of the two columns when it is loaded, and \<open>sorted\<close> raises where texts and NaN are
  mixed. A data frame is the list of its rows, in index order.
\<close>

record vehicle =
  Name :: string
  Brand :: string
  Model :: cell
  ChassisCode :: cell
  Time_sec :: rat
  EngineType :: string
  Drivetrain :: string

text \<open>Truthiness (\<open>if v\<close>), \<open>'ALL' in v\<close> and the wrapping of a single string into a list.
  \<open>'ALL' in v\<close> is membership for a list and the substring test for a string; for \<open>None\<close>
  it is never evaluated, since \<open>and\<close> stops at the falsy \<open>None\<close>.\<close>

fun truthy :: "pyval \<Rightarrow> bool" where
  "truthy PyNone = False"
| "truthy (PyStr s) = (s \<noteq> [])"
| "truthy (PyList xs) = (xs \<noteq> [])"

fun py_in :: "string \<Rightarrow> pyval \<Rightarrow> bool" where
  "py_in x (PyList xs) = (x \<in> set xs)"
| "py_in x (PyStr s) = str_contains x s"
| "py_in x PyNone = False"

fun as_list :: "pyval \<Rightarrow> string list" where
  "as_list (PyStr s) = [s]"
| "as_list (PyList xs) = xs"
| "as_list PyNone = []"

definition brand_filter :: "pyval \<Rightarrow> vehicle list \<Rightarrow> vehicle list" where
  "brand_filter selected_brands df =
     (if truthy selected_brands \<and>
         \<not> (py_in ''ALL'' selected_brands \<or> selected_brands = PyStr ''ALL'')
      then filter (\<lambda>row. Brand row \<in> set (as_list selected_brands)) df
      else df)"

definition drivetrain_filter :: "pyval \<Rightarrow> vehicle list \<Rightarrow> vehicle list" where
  "drivetrain_filter selected_drivetrain df =
     (if truthy selected_drivetrain \<and>
         \<not> (py_in ''ALL'' selected_drivetrain \<or> selected_drivetrain = PyStr ''ALL'')
      then filter (\<lambda>row. Drivetrain row \<in> set (as_list selected_drivetrain)) df
      else df)"

text \<open>The engine dropdown is single-select: its value is a string or \<open>None\<close>.\<close>

definition engine_filter :: "string option \<Rightarrow> vehicle list \<Rightarrow> vehicle list" where
  "engine_filter selected_engine df =
     (if selected_engine \<noteq> Some ''ALL''
      then filter (\<lambda>row. Some (EngineType row) = selected_engine) df
      else df)"

text \<open>The search terms: \<open>[term.strip().lower() for term in model_chassis_search.split(',')]\<close>.\<close>

definition search_terms :: "string \<Rightarrow> string list" where
  "search_terms model_chassis_search =
     map (\<lambda>t. str_lower (str_strip t)) (str_split CHR '','' model_chassis_search)"

text \<open>
  \<open>matches_any_term(model, chassis)\<close>: the two cells are lowered first, which raises
  \<open>AttributeError\<close> on a NaN cell; then \<open>term_loop\<close> is the loop over the search terms,
  which returns at the first term that matches.
\<close>

fun term_loop :: "string list \<Rightarrow> string \<Rightarrow> string \<Rightarrow> string list \<Rightarrow> bool" where
  "term_loop [] model_lower chassis_lower model_words = False"
| "term_loop (t # terms) model_lower chassis_lower model_words =
     (let term_words = str_split_ws t
      in if length term_words > 1
         then (if t = model_lower then True
               else term_loop terms model_lower chassis_lower model_words)
         else (if t \<in> set model_words \<or> t = chassis_lower then True
               else term_loop terms model_lower chassis_lower model_words))"

definition matches_any_term :: "string list \<Rightarrow> cell \<Rightarrow> cell \<Rightarrow> error + bool" where
  "matches_any_term terms model chassis =
     (case cell_lower model of
        Inl e \<Rightarrow> Inl e
      | Inr model_lower \<Rightarrow>
          (case cell_lower chassis of
             Inl e \<Rightarrow> Inl e
           | Inr chassis_lower \<Rightarrow>
               Inr (term_loop terms model_lower chassis_lower (str_split_ws model_lower))))"

text \<open>
  \<open>filtered_df.apply(f, axis=1)\<close> calls \<open>f\<close> on the rows in order and gives the list of
  the results; an exception in a call ends it. \<open>filtered_df[mask]\<close> keeps the rows whose
  entry of the mask is true.
\<close>

fun apply_rows :: "(vehicle \<Rightarrow> error + bool) \<Rightarrow> vehicle list \<Rightarrow> error + bool list" where
  "apply_rows f [] = Inr []"
| "apply_rows f (row # rows) =
     (case f row of
        Inl e \<Rightarrow> Inl e
      | Inr b \<Rightarrow> (case apply_rows f rows of Inl e \<Rightarrow> Inl e | Inr bs \<Rightarrow> Inr (b # bs)))"

definition select_rows :: "vehicle list \<Rightarrow> bool list \<Rightarrow> vehicle list" where
  "select_rows df flags = map fst (filter snd (zip df flags))"

definition text_filter :: "string option \<Rightarrow> vehicle list \<Rightarrow> error + vehicle list" where
  "text_filter model_chassis_search df =
     (case model_chassis_search of
        None \<Rightarrow> Inr df
      | Some s \<Rightarrow>
          if s \<noteq> [] \<and> str_strip s \<noteq> []
          then (case apply_rows (\<lambda>row. matches_any_term (search_terms s) (Model row) (ChassisCode row)) df of
                  Inl e \<Rightarrow> Inl e
                | Inr flags \<Rightarrow> Inr (select_rows df flags))
          else Inr df)"

definition filtered_df ::
  "pyval \<Rightarrow> pyval \<Rightarrow> string option \<Rightarrow> string option \<Rightarrow> vehicle list \<Rightarrow> error + vehicle list" where
  "filtered_df selected_brands selected_drivetrain selected_engine model_chassis_search df_plot =
     text_filter model_chassis_search
       (engine_filter selected_engine
         (drivetrain_filter selected_drivetrain
           (brand_filter selected_brands df_plot)))"

text \<open>
  The matching rule that the text filter is shown to apply to a row whose model name and
  chassis code are texts: a term of more than one word must equal the whole model name;
  any other term, of one word or of none (the empty term that a stray comma leaves), must
  be one of the words of the model name or equal the chassis code; everything compared in
  lower case.
\<close>

definition term_matches :: "string \<Rightarrow> vehicle \<Rightarrow> bool" where
  "term_matches t row =
     (case (Model row, ChassisCode row) of
        (CellStr model, CellStr chassis) \<Rightarrow>
          if length (str_split_ws t) > 1
          then t = str_lower model
          else t \<in> set (str_split_ws (str_lower model)) \<or> t = str_lower chassis
      | _ \<Rightarrow> False)"

text \<open>
  The matching rule in the specification's words, which give a rule for a term of more
  than one word and a rule for a term of a single word, and none for the empty term.
\<close>

definition spec_term_matches :: "string \<Rightarrow> vehicle \<Rightarrow> bool" where
  "spec_term_matches t row =
     (case (Model row, ChassisCode row) of
        (CellStr model, CellStr chassis) \<Rightarrow>
          if length (str_split_ws t) > 1
          then t = str_lower model
          else if length (str_split_ws t) = 1
          then t \<in> set (str_split_ws (str_lower model)) \<or> t = str_lower chassis
          else False
      | _ \<Rightarrow> False)"

definition spec_text_filter :: "string \<Rightarrow> vehicle list \<Rightarrow> vehicle list" where
  "spec_text_filter s df =
     (if str_strip s = [] then df
      else filter (\<lambda>row. list_ex (\<lambda>t. spec_term_matches t row) (search_terms s)) df)"
section \<open>The layout: brand order and x-slots\<close>

text \<open>
  \<open>filtered_df.groupby('Brand')['Time_sec'].min()\<close>: one entry per brand of the frame,
  the brands in ascending order (\<open>groupby\<close> sorts its keys), each with the least
  \<open>Time_sec\<close> of its rows. A group is never empty; \<open>group_min\<close> gives 0 for a brand with
  no row only to be total.
\<close>

definition group_min :: "vehicle list \<Rightarrow> string \<Rightarrow> rat" where
  "group_min df b =
     (case map Time_sec (filter (\<lambda>row. Brand row = b) df) of
        [] \<Rightarrow> 0
      | t # ts \<Rightarrow> fold min ts t)"

definition groupby_min :: "vehicle list \<Rightarrow> (string \<times> rat) list" where
  "groupby_min df = map (\<lambda>b. (b, group_min df b)) (sort (remdups (map Brand df)))"

text \<open>
  \<open>Series.sort_values()\<close> with pandas' default sort kind: the entries of the series in
  ascending order of their values. That kind is not stable and pandas promises no order
  among entries of equal value (the order found depends on the sorting routine that numpy
  picks for the machine), so the sort is a relation between a series and each result it
  can have: the same entries, ascending by value.
\<close>

definition sort_values :: "(string \<times> rat) list \<Rightarrow> (string \<times> rat) list \<Rightarrow> bool" where
  "sort_values series result \<longleftrightarrow> mset result = mset series \<and> sorted (map snd result)"

text \<open>The values that the variable \<open>brand_fastest_time\<close> can have on a frame.\<close>

definition brand_fastest_time :: "vehicle list \<Rightarrow> (string \<times> rat) list \<Rightarrow> bool" where
  "brand_fastest_time df series \<longleftrightarrow> sort_values (groupby_min df) series"

text \<open>
  What \<open>update_visualization\<close> derives from \<open>brand_fastest_time\<close>, given as the first
  argument: \<open>brand_fastest_time.index.tolist()\<close> behind the test \<open>len(filtered_df) > 0\<close> (on
  an empty frame the order is \<open>[]\<close> and nothing is sorted), the dictionary
  \<open>{brand: i for i, brand in enumerate(brand_order_simple)}\<close> and the column
  \<open>Brand_X_simple\<close> that \<open>filtered_df['Brand'].map\<close> reads from it.
\<close>

definition brand_order_simple :: "(string \<times> rat) list \<Rightarrow> vehicle list \<Rightarrow> string list" where
  "brand_order_simple series df = (if length df > 0 then map fst series else [])"

definition brand_position_simple :: "(string \<times> rat) list \<Rightarrow> vehicle list \<Rightarrow> (string \<rightharpoonup> nat)" where
  "brand_position_simple series df =
     fold (\<lambda>(i, brand) m. m(brand \<mapsto> i)) (enumerate 0 (brand_order_simple series df)) Map.empty"

definition Brand_X_simple :: "(string \<times> rat) list \<Rightarrow> vehicle list \<Rightarrow> vehicle \<Rightarrow> nat option" where
  "Brand_X_simple series df row = brand_position_simple series df (Brand row)"

text \<open>
  The brand order in the specification's words: the least \<open>timeSeconds\<close> among a
  brand's records, and the brands, taken in the order in which they first appear in the
  frame, sorted by it with a stable sort.
\<close>

definition fastest_time_of_brand :: "vehicle list \<Rightarrow> string \<Rightarrow> rat" where
  "fastest_time_of_brand df b = Min (Time_sec ` {row \<in> set df. Brand row = b})"

definition store_order_brands :: "vehicle list \<Rightarrow> string list" where
  "store_order_brands df = rev (remdups (rev (map Brand df)))"

definition spec_brand_order :: "vehicle list \<Rightarrow> string list" where
  "spec_brand_order df = sort_key (fastest_time_of_brand df) (store_order_brands df)"

section \<open>The summary\<close>

definition total_vehicles :: "vehicle list \<Rightarrow> nat" where
  "total_vehicles df = length df"

text \<open>\<open>filtered_df['Brand'].nunique() if len(filtered_df) > 0 else 0\<close>\<close>

definition total_brands :: "vehicle list \<Rightarrow> nat" where
  "total_brands df = (if length df > 0 then length (remdups (map Brand df)) else 0)"

text \<open>
  \<open>Series.idxmin()\<close>: the position of the first occurrence of the least value. The scan
  carries the best position and value so far, and the position it is at. On an empty
  series pandas raises; \<open>update_visualization\<close> calls it only on a non-empty frame.
\<close>

fun idxmin_from :: "nat \<Rightarrow> rat \<Rightarrow> nat \<Rightarrow> rat list \<Rightarrow> nat" where
  "idxmin_from best v i [] = best"
| "idxmin_from best v i (t # ts) =
     (if t < v then idxmin_from i t (Suc i) ts else idxmin_from best v (Suc i) ts)"

fun idxmin :: "rat list \<Rightarrow> nat option" where
  "idxmin [] = None"
| "idxmin (t # ts) = Some (idxmin_from 0 t 1 ts)"

definition fastest_row :: "vehicle list \<Rightarrow> vehicle option" where
  "fastest_row df =
     (if length df > 0
      then (case idxmin (map Time_sec df) of
              None \<Rightarrow> None
            | Some fastest_idx \<Rightarrow>
                if fastest_idx < length df then Some (df ! fastest_idx) else None)
      else None)"

text \<open>What the statistics panel is built from: the two counts and, on a non-empty
  frame, the fastest row.\<close>

definition summary_stats :: "vehicle list \<Rightarrow> nat \<times> nat \<times> vehicle option" where
  "summary_stats df = (total_vehicles df, total_brands df, fastest_row df)"

section \<open>Python floats\<close>

text \<open>
  A finite float (IEEE 754 binary64) is the rational number it stands for. Every
  operation of the source that can round is the exact operation followed by \<open>fl\<close>, the
  rounding to the nearest binary64 value, ties to the even significand: the value is
  scaled by the power of two of its last significand bit (exponent \<open>floor_log2 - 52\<close>,
  and \<open>-1074\<close> in the subnormal range), rounded to an integer and scaled back. Only
  non-negative values are ever rounded to infinity here, so there is one infinity.
\<close>

definition floor_log2 :: "rat \<Rightarrow> int" where
  "floor_log2 q =
     (let (a, b) = quotient_of q; z = bitlen a - bitlen b
      in if 2 powi z \<le> q then z else z - 1)"

definition round_half_even :: "rat \<Rightarrow> int" where
  "round_half_even q =
     (let f = \<lfloor>q\<rfloor>; d = q - of_int f
      in if d < 1 / 2 then f else if 1 / 2 < d then f + 1 else if even f then f else f + 1)"

definition ulp_exponent :: "rat \<Rightarrow> int" where
  "ulp_exponent q = max (floor_log2 \<bar>q\<bar> - 52) (- 1074)"

definition fl :: "rat \<Rightarrow> rat" where
  "fl q =
     (if q = 0 then 0
      else of_int (round_half_even (q / 2 powi ulp_exponent q)) * 2 powi ulp_exponent q)"

datatype pyfloat = Finite rat | Inf | NaN

text \<open>Rounding a non-negative exact result into a float: values that round to
  \<open>2^1024\<close> or more become infinity.\<close>

definition to_float :: "rat \<Rightarrow> pyfloat" where
  "to_float q = (if 2 ^ 1024 \<le> fl q then Inf else Finite (fl q))"

text \<open>\<open>a * b\<close> and \<open>a + b\<close> on floats that are not negative.\<close>

fun fmul :: "pyfloat \<Rightarrow> pyfloat \<Rightarrow> pyfloat" where
  "fmul (Finite a) (Finite b) = to_float (a * b)"
| "fmul NaN _ = NaN"
| "fmul _ NaN = NaN"
| "fmul Inf (Finite b) = (if b = 0 then NaN else Inf)"
| "fmul (Finite a) Inf = (if a = 0 then NaN else Inf)"
| "fmul Inf Inf = Inf"

fun fadd :: "pyfloat \<Rightarrow> pyfloat \<Rightarrow> pyfloat" where
  "fadd (Finite a) (Finite b) = to_float (a + b)"
| "fadd NaN _ = NaN"
| "fadd _ NaN = NaN"
| "fadd Inf _ = Inf"
| "fadd _ Inf = Inf"

text \<open>The conversion of a Python \<open>int\<close> to a float, as \<open>int * float\<close> performs it: the
  nearest float, and \<open>OverflowError\<close> ("int too large to convert to float") when that is
  not finite.\<close>

definition int_to_float :: "nat \<Rightarrow> error + pyfloat" where
  "int_to_float n = (case to_float (of_nat n) of Inf \<Rightarrow> Inl OverflowError | x \<Rightarrow> Inr x)"

section \<open>The layout: label widths and the chart width\<close>

text \<open>
  \<open>len(f"{row['Model']} {row['ChassisCode']}")\<close>, and \<open>max(xs or [0])\<close> and \<open>max(xs)\<close> for a
  list of lengths. \<open>max\<close> of an empty sequence raises; the source calls it only behind
  \<open>or [0]\<close> or the test \<open>if brand_max_text_width\<close>, and \<open>py_max\<close> gives 0 there only
  to be total.
\<close>

definition label_length :: "vehicle \<Rightarrow> nat" where
  "label_length row = length (cell_format (Model row) @ '' '' @ cell_format (ChassisCode row))"

definition py_max :: "nat list \<Rightarrow> nat" where
  "py_max xs = (case xs of [] \<Rightarrow> 0 | x # rest \<Rightarrow> fold max rest x)"

definition max_or_zero :: "nat list \<Rightarrow> nat" where
  "max_or_zero xs = py_max (if xs = [] then [0] else xs)"

text \<open>The dictionary \<open>brand_max_text_width\<close>, one entry per brand in the brand order. As in
  the brand order, the first argument is the value of \<open>brand_fastest_time\<close>.\<close>

definition brand_max_text_width :: "(string \<times> rat) list \<Rightarrow> vehicle list \<Rightarrow> (string \<times> nat) list" where
  "brand_max_text_width series df =
     map (\<lambda>brand. (brand, max_or_zero (map label_length (filter (\<lambda>row. Brand row = brand) df))))
       (brand_order_simple series df)"

text \<open>
  The widths are float arithmetic: \<open>0.08\<close> is the float nearest to 0.08, an integer is
  made a float before it meets one (a length or a count is below \<open>2^63\<close>, so this never
  overflows), and each product and sum is rounded. Lengths that large aside, no
  operation here reaches infinity, and a value that large would be cut to 1600 anyway.
\<close>

definition char_width :: rat where
  "char_width = fl (8 / 100)"

definition max_brand_width :: "(string \<times> rat) list \<Rightarrow> vehicle list \<Rightarrow> rat" where
  "max_brand_width series df =
     (if length df > 0
      then (if brand_max_text_width series df \<noteq> []
            then fl (fl (of_nat (py_max (map snd (brand_max_text_width series df)))) * char_width)
            else 0)
      else 0)"

definition content_width :: "(string \<times> rat) list \<Rightarrow> vehicle list \<Rightarrow> rat" where
  "content_width series df =
     (let num_brands = length (brand_order_simple series df)
      in fl (fl (of_nat (num_brands * 100 + 500)) + fl (max_brand_width series df * 200)))"

definition responsive_width :: "(string \<times> rat) list \<Rightarrow> vehicle list \<Rightarrow> rat" where
  "responsive_width series df =
     (if length df > 0 then min 1600 (max 900 (content_width series df)) else 900)"

section \<open>The time codec: \<open>parse_time_to_seconds\<close> and \<open>seconds_to_duration\<close>\<close>

definition digit_val :: "char \<Rightarrow> nat" where
  "digit_val c = of_char c - 48"

text \<open>
  \<open>int(min_part)\<close> on a string of digits. Python's \<open>int\<close> is unbounded, and \<open>int_of_digits\<close>
  is the number that the digits write; but CPython (with its default limit for the
  conversion between \<open>str\<close> and \<open>int\<close>) raises \<open>ValueError\<close> on a text of more than 4300
  digits.
\<close>

definition int_of_digits :: "string \<Rightarrow> nat" where
  "int_of_digits ds = foldl (\<lambda>n c. 10 * n + digit_val c) 0 ds"

definition py_int :: "string \<Rightarrow> error + nat" where
  "py_int ds = (if length ds > 4300 then Inl ValueError else Inr (int_of_digits ds))"

text \<open>
  \<open>float(text)\<close> on the texts that reach it: digits, then possibly a point and more
  digits. The result is the float nearest to the decimal number, infinity when that is
  too large. Any other text is reported as \<open>ValueError\<close>.
\<close>

definition decimal_shape :: "string \<Rightarrow> bool" where
  "decimal_shape s =
     (let d1 = takeWhile is_digit s; r = dropWhile is_digit s
      in d1 \<noteq> [] \<and> (r = [] \<or> (hd r = CHR ''.'' \<and> list_all is_digit (tl r))))"

definition decimal_value :: "string \<Rightarrow> rat" where
  "decimal_value s =
     (let d1 = takeWhile is_digit s; r = dropWhile is_digit s; d2 = tl r
      in of_nat (int_of_digits d1) + of_nat (int_of_digits d2) / 10 ^ length d2)"

definition py_float :: "string \<Rightarrow> error + pyfloat" where
  "py_float s = (if decimal_shape s then Inr (to_float (decimal_value s)) else Inl ValueError)"

text \<open>
  \<open>re.match(r'^(?:(\d+):)?(\d{1,2}(?:\.\d+)?)$', s)\<close> on a stripped string, with its two
  groups. \<open>sec_shape\<close> is the second group up to the end of the string: one or two
  digits, then nothing or a point and at least one digit. The first group takes all
  leading digits and needs a colon right after them; no shorter run of digits is
  followed by a colon.
\<close>

definition sec_shape :: "string \<Rightarrow> bool" where
  "sec_shape s =
     (let d = takeWhile is_digit s; r = dropWhile is_digit s
      in (length d = 1 \<or> length d = 2) \<and>
         (r = [] \<or> (hd r = CHR ''.'' \<and> tl r \<noteq> [] \<and> list_all is_digit (tl r))))"

definition re_match_time :: "string \<Rightarrow> (string option \<times> string) option" where
  "re_match_time s =
     (let d = takeWhile is_digit s; r = dropWhile is_digit s
      in if d \<noteq> [] \<and> r \<noteq> [] \<and> hd r = CHR '':'' \<and> sec_shape (tl r) then Some (Some d, tl r)
         else if sec_shape s then Some (None, s)
         else None)"

text \<open>
  \<open>re.findall(r'\d+\.?\d*', s)\<close>: from the left, at each digit the longest run of
  digits, a point if one follows, and the digits after it; the search goes on behind the
  match.
\<close>

function findall_nums :: "string \<Rightarrow> string list" where
  "findall_nums [] = []"
| "findall_nums (c # cs) =
     (if is_digit c
      then (c # takeWhile is_digit cs @
              (case dropWhile is_digit cs of
                 [] \<Rightarrow> []
               | d # r \<Rightarrow> if d = CHR ''.'' then d # takeWhile is_digit r else [])) #
           findall_nums
             (case dropWhile is_digit cs of
                [] \<Rightarrow> []
              | d # r \<Rightarrow> if d = CHR ''.'' then dropWhile is_digit r else d # r)
      else findall_nums cs)"
  by pat_completeness auto
termination
proof (relation "measure length")
  show "wf (measure length)" by simp
next
  fix c :: char and cs :: string
  assume "is_digit c"
  have le: "length (dropWhile is_digit xs) \<le> length xs" for xs :: string
    by (rule length_dropWhile_le)
  show "((case dropWhile is_digit cs of
            [] \<Rightarrow> []
          | d # r \<Rightarrow> if d = CHR ''.'' then dropWhile is_digit r else d # r), c # cs)
        \<in> measure length"
  proof (cases "dropWhile is_digit cs")
    case Nil
    show ?thesis unfolding Nil by simp
  next
    case (Cons d r)
    from le [of cs] Cons have "Suc (length r) \<le> length cs" by simp
    moreover from le [of r] have "length (dropWhile is_digit r) \<le> length r" .
    ultimately show ?thesis using Cons by simp
  qed
next
  fix c :: char and cs :: string
  show "(cs, c # cs) \<in> measure length" by simp
qed

text \<open>
  \<open>parse_time_to_seconds\<close>. \<open>pd.isna(t)\<close> holds for a missing value (\<open>None\<close>); any other
  input is a text. \<open>int(min_part)\<close> stands before the \<open>try\<close>, and \<open>minutes * 60.0\<close>, which
  converts the integer to a float first, stands behind it, so the \<open>ValueError\<close> of the one
  and the \<open>OverflowError\<close> of the other are not caught.
\<close>

definition parse_time_to_seconds :: "string option \<Rightarrow> error + pyfloat" where
  "parse_time_to_seconds t =
     (case t of
        None \<Rightarrow> Inr NaN
      | Some text \<Rightarrow>
          (let s = str_strip text
           in case re_match_time s of
                Some (min_part, sec_part) \<Rightarrow>
                  (case (case min_part of None \<Rightarrow> Inr 0 | Some d \<Rightarrow> py_int d) of
                     Inl e \<Rightarrow> Inl e
                   | Inr minutes \<Rightarrow>
                       (case py_float sec_part of
                          Inl e \<Rightarrow> Inr NaN
                        | Inr seconds \<Rightarrow>
                            (case int_to_float minutes of
                               Inl e \<Rightarrow> Inl e
                             | Inr m \<Rightarrow> Inr (fadd (fmul m (Finite 60)) seconds))))
              | None \<Rightarrow>
                  (let nums = findall_nums s
                   in if length nums = 1 then py_float (nums ! 0) else Inr NaN)))"

text \<open>
  \<open>x // y\<close> and \<open>x % y\<close> on finite floats with \<open>y > 0\<close>, as CPython computes them:
  the remainder of C's \<open>fmod\<close> (exact, with the sign of \<open>x\<close>), the quotient
  \<open>(x - mod) / y\<close>, both moved by one step when the remainder is negative, and the
  quotient brought to a whole number.
\<close>

definition py_fmod :: "rat \<Rightarrow> rat \<Rightarrow> rat" where
  "py_fmod x y = x - y * of_int (if 0 \<le> x / y then \<lfloor>x / y\<rfloor> else \<lceil>x / y\<rceil>)"

definition float_divmod :: "rat \<Rightarrow> rat \<Rightarrow> rat \<times> rat" where
  "float_divmod vx wx =
     (let mod0 = py_fmod vx wx;
          div0 = fl (fl (vx - mod0) / wx);
          mod1 = (if mod0 < 0 then fl (mod0 + wx) else mod0);
          div1 = (if mod0 < 0 then fl (div0 - 1) else div0);
          floordiv = (if div1 \<noteq> 0
                      then (if 1 / 2 < div1 - of_int \<lfloor>div1\<rfloor> then of_int \<lfloor>div1\<rfloor> + 1
                            else of_int \<lfloor>div1\<rfloor>)
                      else 0)
      in (floordiv, mod1))"

text \<open>Decimal digits of a natural number, zero padding, and the two format
  specifications of the source: \<open>{n:02d}\<close> and \<open>{x:06.3f}\<close> or \<open>{x:04.1f}\<close> (for \<open>x \<ge> 0\<close>,
  which a remainder by 60 always is). A float is printed from its exact value, rounded
  to the wanted number of decimals, ties to even.\<close>

fun digits_of :: "nat \<Rightarrow> string" where
  "digits_of n = (if n < 10 then [char_of (48 + n)] else digits_of (n div 10) @ [char_of (48 + n mod 10)])"

declare digits_of.simps [simp del]

definition zero_pad :: "nat \<Rightarrow> string \<Rightarrow> string" where
  "zero_pad w s = replicate (w - length s) CHR ''0'' @ s"

definition format_int :: "nat \<Rightarrow> int \<Rightarrow> string" where
  "format_int w n =
     (if 0 \<le> n then zero_pad w (digits_of (nat n))
      else CHR ''-'' # zero_pad (w - 1) (digits_of (nat (- n))))"

definition format_fixed :: "nat \<Rightarrow> nat \<Rightarrow> rat \<Rightarrow> string" where
  "format_fixed w p x =
     (let n = nat (round_half_even (x * 10 ^ p))
      in zero_pad (w - p - 1) (digits_of (n div 10 ^ p)) @ CHR ''.'' # zero_pad p (digits_of (n mod 10 ^ p)))"

text \<open>\<open>seconds_to_duration\<close>. For infinity \<open>sec // 60\<close> is NaN, and \<open>int\<close> of it raises
  \<open>ValueError\<close>.\<close>

definition seconds_to_duration :: "pyfloat \<Rightarrow> nat \<Rightarrow> error + string" where
  "seconds_to_duration sec decimals =
     (case sec of
        NaN \<Rightarrow> Inr []
      | Inf \<Rightarrow> Inl ValueError
      | Finite x \<Rightarrow>
          (let minutes = \<lfloor>fst (float_divmod x 60)\<rfloor>;
               remaining_sec = snd (float_divmod x 60)
           in if decimals = 1
              then Inr (format_int 2 minutes @ CHR '':'' # format_fixed 4 1 remaining_sec)
              else Inr (format_int 2 minutes @ CHR '':'' # format_fixed 6 3 remaining_sec)))"




section \<open>The y-axis ticks\<close>

text \<open>\<open>filtered_df['Time_sec'].min()\<close> and \<open>.max()\<close> on a non-empty frame.\<close>

definition min_time :: "vehicle list \<Rightarrow> rat" where
  "min_time df = Min (set (map Time_sec df))"

definition max_time :: "vehicle list \<Rightarrow> rat" where
  "max_time df = Max (set (map Time_sec df))"

text \<open>
  \<open>np.arange(start, stop, step)\<close> on floats: the length is the ceiling of
  \<open>(stop - start) / step\<close>, computed in floats; the first two values are \<open>start\<close> and
  \<open>start + step\<close>, and value \<open>i\<close> is \<open>start + i * delta\<close>, where \<open>delta\<close> is the difference
  of the first two values.
\<close>

definition arange :: "rat \<Rightarrow> rat \<Rightarrow> rat \<Rightarrow> rat list" where
  "arange start stop step =
     (let len = \<lceil>fl (fl (stop - start) / step)\<rceil>;
          second = fl (start + step);
          delta = fl (second - start)
      in map (\<lambda>i. if i = 0 then start
                  else if i = 1 then second
                  else fl (start + fl (fl (of_nat i) * delta)))
           [0..<nat len])"

definition tick_interval :: rat where
  "tick_interval = 1 / 2"

text \<open>\<open>np.sort(np.unique(np.concatenate([[min_time], tick_values])))\<close>: the values in
  ascending order, each once.\<close>

definition tick_values :: "rat \<Rightarrow> rat \<Rightarrow> rat list" where
  "tick_values min_t max_t =
     (let start = fl (of_int \<lceil>fl (min_t / tick_interval)\<rceil> * tick_interval);
          grid = arange start (fl (max_t + tick_interval)) tick_interval
      in sort (remdups (min_t # grid)))"

text \<open>The label of one tick: \<open>t % 1.0 < 0.01\<close> compares the float remainder with the
  float nearest to 0.01. The list of labels has one result per tick.\<close>

definition tick_label :: "rat \<Rightarrow> rat \<Rightarrow> error + string" where
  "tick_label min_t t =
     (if t = min_t \<or> snd (float_divmod t 1) < fl (1 / 100)
      then seconds_to_duration (Finite t) 3
      else Inr [])"

definition tick_labels :: "rat \<Rightarrow> rat list \<Rightarrow> (error + string) list" where
  "tick_labels min_t ts = map (tick_label min_t) ts"

text \<open>The tick values in the specification's words: the points at intervals of 0.5
  from the ceiling of the least time up to the greatest time, and the least time.\<close>

definition spec_tick_values :: "rat \<Rightarrow> rat \<Rightarrow> rat list" where
  "spec_tick_values min_t max_t =
     sort (remdups (min_t #
       map (\<lambda>k. of_int \<lceil>min_t\<rceil> + of_nat k / 2) [0..<nat (\<lfloor>2 * (max_t - of_int \<lceil>min_t\<rceil>)\<rfloor> + 1)]))"

text \<open>The tick values and labels that \<open>update_visualization\<close> sets on the y-axis of a
  non-empty frame.\<close>

definition y_tick_values :: "vehicle list \<Rightarrow> rat list" where
  "y_tick_values df = tick_values (min_time df) (max_time df)"

definition y_tick_labels :: "vehicle list \<Rightarrow> (error + string) list" where
  "y_tick_labels df = tick_labels (min_time df) (y_tick_values df)"

section \<open>Sample data\<close>

definition sample_rows :: "vehicle list" where
  "sample_rows =
     [\<lparr>Name = ''A'', Brand = ''Honda'', Model = CellStr ''Civic Type R'', ChassisCode = CellStr ''FL5'',
       Time_sec = 99.289, EngineType = ''FI'', Drivetrain = ''FWD''\<rparr>,
      \<lparr>Name = ''B'', Brand = ''Honda'', Model = CellStr ''Type R'', ChassisCode = CellStr ''DC2'',
       Time_sec = 101.5, EngineType = ''NA'', Drivetrain = ''FWD''\<rparr>,
      \<lparr>Name = ''C'', Brand = ''Porsche'', Model = CellStr ''911 GT3'', ChassisCode = CellStr ''992.1'',
       Time_sec = 92.25, EngineType = ''NA'', Drivetrain = ''RWD''\<rparr>,
      \<lparr>Name = ''D'', Brand = ''Acura'', Model = CellStr ''Integra'', ChassisCode = CellStr ''Civic'',
       Time_sec = 99.289, EngineType = ''FI'', Drivetrain = ''FWD''\<rparr>]"

definition abc_rows :: "vehicle list" where
  "abc_rows =
     [\<lparr>Name = ''a1'', Brand = ''BrandA'', Model = CellStr ''One'', ChassisCode = CellStr ''A1'',
       Time_sec = 61.0, EngineType = ''NA'', Drivetrain = ''RWD''\<rparr>,
      \<lparr>Name = ''b1'', Brand = ''BrandB'', Model = CellStr ''Two'', ChassisCode = CellStr ''B1'',
       Time_sec = 58.2, EngineType = ''NA'', Drivetrain = ''RWD''\<rparr>,
      \<lparr>Name = ''c1'', Brand = ''BrandC'', Model = CellStr ''Three'', ChassisCode = CellStr ''C1'',
       Time_sec = 58.2, EngineType = ''FI'', Drivetrain = ''AWD''\<rparr>,
      \<lparr>Name = ''a2'', Brand = ''BrandA'', Model = CellStr ''Four'', ChassisCode = CellStr ''A2'',
       Time_sec = 63.5, EngineType = ''FI'', Drivetrain = ''AWD''\<rparr>]"

definition tie_rows :: "vehicle list" where
  "tie_rows =
     [\<lparr>Name = ''z'', Brand = ''Zeta'', Model = CellStr ''One'', ChassisCode = CellStr ''Z1'',
       Time_sec = 58.2, EngineType = ''NA'', Drivetrain = ''RWD''\<rparr>,
      \<lparr>Name = ''a'', Brand = ''Alpha'', Model = CellStr ''Two'', ChassisCode = CellStr ''A1'',
       Time_sec = 58.2, EngineType = ''NA'', Drivetrain = ''RWD''\<rparr>]"

definition tick_rows :: "vehicle list" where
  "tick_rows =
     [\<lparr>Name = ''p'', Brand = ''BrandA'', Model = CellStr ''One'', ChassisCode = CellStr ''A1'',
       Time_sec = 59.75, EngineType = ''NA'', Drivetrain = ''RWD''\<rparr>,
      \<lparr>Name = ''q'', Brand = ''BrandB'', Model = CellStr ''Two'', ChassisCode = CellStr ''B1'',
       Time_sec = 58.25, EngineType = ''NA'', Drivetrain = ''RWD''\<rparr>,
      \<lparr>Name = ''r'', Brand = ''BrandC'', Model = CellStr ''Three'', ChassisCode = CellStr ''C1'',
       Time_sec = 60.5, EngineType = ''FI'', Drivetrain = ''AWD''\<rparr>]"

definition edge_rows :: "vehicle list" where
  "edge_rows =
     [\<lparr>Name = ''u'', Brand = ''BrandA'', Model = CellStr ''One'', ChassisCode = CellStr ''A1'',
       Time_sec = 60.25, EngineType = ''NA'', Drivetrain = ''RWD''\<rparr>,
      \<lparr>Name = ''v'', Brand = ''BrandB'', Model = CellStr ''Two'', ChassisCode = CellStr ''B1'',
       Time_sec = 58.25, EngineType = ''NA'', Drivetrain = ''RWD''\<rparr>]"

text \<open>A row whose chassis code is the empty text, and a row whose chassis code is
  missing.\<close>

definition bare_rows :: "vehicle list" where
  "bare_rows =
     [\<lparr>Name = ''E'', Brand = ''Honda'', Model = CellStr ''Civic'', ChassisCode = CellStr [],
       Time_sec = 99.5, EngineType = ''NA'', Drivetrain = ''FWD''\<rparr>]"

definition nan_rows :: "vehicle list" where
  "nan_rows =
     [\<lparr>Name = ''F'', Brand = ''Honda'', Model = CellStr ''Civic'', ChassisCode = CellNaN,
       Time_sec = 99.5, EngineType = ''NA'', Drivetrain = ''FWD''\<rparr>]"

section \<open>Properties of the reducers\<close>

lemma filter_not_all: "''ALL'' \<notin> set (filter (\<lambda>b. b \<noteq> ''ALL'') xs)"
  by simp

lemma update_drivetrain_is_brand: "update_drivetrain_dropdown v = update_brand_dropdown v"
  by (cases v) simp_all

text \<open>
  Claim C7, as the code has it. The reducers of the brand and of the drivetrain dropdown
  are the same function. Their result never is a list that holds \<open>ALL\<close>. A raw selection
  that holds a concrete value comes back without any \<open>ALL\<close> and with its concrete values
  in order, wherever \<open>ALL\<close> stood in it (so selecting \<open>ALL\<close> after a concrete value keeps
  the concrete value). A missing selection, the empty selection and the selection
  \<open>[ALL]\<close> become the sentinel string \<open>ALL\<close>.
\<close>

theorem dropdown_reducer_normalizes:
  "update_drivetrain_dropdown v = update_brand_dropdown v \<and>
   (\<forall>xs. update_brand_dropdown v = PyList xs \<longrightarrow> ''ALL'' \<notin> set xs) \<and>
   (\<forall>xs. v = PyList xs \<and> (\<exists>x \<in> set xs. x \<noteq> ''ALL'') \<longrightarrow>
      update_brand_dropdown v = PyList (filter (\<lambda>b. b \<noteq> ''ALL'') xs)) \<and>
   (v = PyNone \<or> v = PyList [] \<or> v = PyList [''ALL''] \<longrightarrow>
      update_brand_dropdown v = PyStr ''ALL'')"
proof (intro conjI allI impI)
  show "update_drivetrain_dropdown v = update_brand_dropdown v"
    by (rule update_drivetrain_is_brand)
next
  fix xs assume res: "update_brand_dropdown v = PyList xs"
  show "''ALL'' \<notin> set xs"
  proof (cases v)
    case PyNone
    with res show ?thesis by simp
  next
    case (PyStr s)
    with res show ?thesis by simp
  next
    case (PyList ys)
    show ?thesis
    proof (cases "length ys > 1 \<and> ''ALL'' \<in> set ys")
      case True
      with res PyList have "xs = filter (\<lambda>b. b \<noteq> ''ALL'') ys" by simp
      then show ?thesis by simp
    next
      case False
      with res PyList have keep: "xs = ys" and ne: "ys \<noteq> [''ALL'']"
        by (auto split: if_splits)
      show ?thesis
      proof
        assume mem: "''ALL'' \<in> set xs"
        with False keep have "length ys \<le> 1" by auto
        with mem keep have "ys = [''ALL'']" by (cases ys) auto
        with ne show False by simp
      qed
    qed
  qed
next
  fix xs assume h: "v = PyList xs \<and> (\<exists>x \<in> set xs. x \<noteq> ''ALL'')"
  then obtain x where x: "x \<in> set xs" "x \<noteq> ''ALL''" by blast
  show "update_brand_dropdown v = PyList (filter (\<lambda>b. b \<noteq> ''ALL'') xs)"
  proof (cases "''ALL'' \<in> set xs")
    case True
    with x have "length xs > 1" by (cases xs; cases "tl xs") auto
    with True h show ?thesis by simp
  next
    case False
    then have same: "filter (\<lambda>b. b \<noteq> ''ALL'') xs = xs" by (induction xs) auto
    from x have "xs \<noteq> []" by auto
    with False h same show ?thesis by auto
  qed
next
  assume "v = PyNone \<or> v = PyList [] \<or> v = PyList [''ALL'']"
  then show "update_brand_dropdown v = PyStr ''ALL''" by auto
qed

theorem dropdown_reducer_normalizes_witness:
  "update_brand_dropdown (PyList [''ALL'', ''Honda'', ''Toyota'']) = PyList [''Honda'', ''Toyota''] \<and>
   update_drivetrain_dropdown (PyList [''ALL'', ''Honda'', ''Toyota'']) = PyList [''Honda'', ''Toyota''] \<and>
   update_brand_dropdown (PyList []) = PyStr ''ALL''"
  using dropdown_reducer_normalizes [of "PyList [''ALL'', ''Honda'', ''Toyota'']"]
    dropdown_reducer_normalizes [of "PyList []"]
  by simp

text \<open>Claim C7 as the specification words it fails in its "vice versa": when \<open>ALL\<close> is
  selected after a concrete value, the reducer drops \<open>ALL\<close> and keeps the concrete value.\<close>

theorem dropdown_select_all_counterexample:
  "update_brand_dropdown (PyList [''Honda'', ''ALL'']) = PyList [''Honda''] \<and>
   update_brand_dropdown (PyList [''Honda'', ''ALL'']) \<noteq> PyStr ''ALL'' \<and>
   update_drivetrain_dropdown (PyList [''RWD'', ''ALL'']) = PyList [''RWD'']"
  by simp

section \<open>Properties of the filters\<close>

text \<open>
  Claim C9. A brand selection list that holds \<open>ALL\<close> anywhere leaves every row in place,
  and the whole filter gives what it gives for the single string \<open>ALL\<close> and for the list
  \<open>[ALL]\<close>; the same for a drivetrain selection list.
\<close>

theorem all_in_list_skips_criterion:
  assumes "''ALL'' \<in> set sel"
  shows "brand_filter (PyList sel) df = df \<and>
         drivetrain_filter (PyList sel) df = df \<and>
         filtered_df (PyList sel) d e s df = filtered_df (PyStr ''ALL'') d e s df \<and>
         filtered_df (PyList sel) d e s df = filtered_df (PyList [''ALL'']) d e s df \<and>
         filtered_df b (PyList sel) e s df = filtered_df b (PyStr ''ALL'') e s df \<and>
         filtered_df b (PyList sel) e s df = filtered_df b (PyList [''ALL'']) e s df"
proof -
  have b: "brand_filter (PyList sel) rows = rows" for rows
    using assms by (simp add: brand_filter_def)
  have t: "drivetrain_filter (PyList sel) rows = rows" for rows
    using assms by (simp add: drivetrain_filter_def)
  have b1: "brand_filter (PyStr ''ALL'') rows = rows" "brand_filter (PyList [''ALL'']) rows = rows"
    for rows by (simp_all add: brand_filter_def)
  have t1: "drivetrain_filter (PyStr ''ALL'') rows = rows"
    "drivetrain_filter (PyList [''ALL'']) rows = rows"
    for rows by (simp_all add: drivetrain_filter_def)
  show ?thesis
    unfolding filtered_df_def by (simp only: b t b1 t1)
qed


theorem all_in_list_skips_criterion_witness:
  "brand_filter (PyList [''Honda'', ''ALL'']) sample_rows = sample_rows \<and>
   filtered_df (PyList [''Honda'', ''ALL'']) (PyList [''RWD'']) (Some ''NA'') None sample_rows =
   filtered_df (PyStr ''ALL'') (PyList [''RWD'']) (Some ''NA'') None sample_rows \<and>
   filtered_df (PyList [''Honda'']) (PyList [''RWD'', ''ALL'']) (Some ''NA'') None sample_rows =
   filtered_df (PyList [''Honda'']) (PyStr ''ALL'') (Some ''NA'') None sample_rows"
proof -
  have mem: "''ALL'' \<in> set [''Honda'', ''ALL'']" "''ALL'' \<in> set [''RWD'', ''ALL'']"
    by simp_all
  from all_in_list_skips_criterion [OF mem(1)] all_in_list_skips_criterion [OF mem(2)]
  show ?thesis by blast
qed

lemma str_strip_Nil: "str_strip [] = []"
  by (simp add: str_strip_def)

lemma term_loop_iff:
  "term_loop terms model_lower chassis_lower model_words \<longleftrightarrow>
     (\<exists>t \<in> set terms.
        if length (str_split_ws t) > 1 then t = model_lower
        else t \<in> set model_words \<or> t = chassis_lower)"
  by (induction terms) (auto simp: Let_def)

lemma matches_any_term_texts:
  assumes "Model row = CellStr model" "ChassisCode row = CellStr chassis"
  shows "matches_any_term terms (Model row) (ChassisCode row) =
           Inr (\<exists>t \<in> set terms. term_matches t row)"
  by (simp add: matches_any_term_def cell_lower_def term_loop_iff term_matches_def assms)

lemma matches_any_term_missing:
  assumes "model = CellNaN \<or> chassis = CellNaN"
  shows "matches_any_term terms model chassis = Inl AttributeError"
  using assms by (auto simp: matches_any_term_def cell_lower_def split: cell.splits)

lemma matches_any_term_error:
  "matches_any_term terms model chassis = Inl e \<Longrightarrow> e = AttributeError"
  by (auto simp: matches_any_term_def cell_lower_def split: cell.splits)

lemma apply_rows_texts:
  assumes "\<forall>row \<in> set df. Model row \<noteq> CellNaN \<and> ChassisCode row \<noteq> CellNaN"
  shows "apply_rows (\<lambda>row. matches_any_term terms (Model row) (ChassisCode row)) df =
           Inr (map (\<lambda>row. \<exists>t \<in> set terms. term_matches t row) df)"
  using assms
proof (induction df)
  case Nil
  then show ?case by simp
next
  case (Cons row rows)
  from Cons.prems obtain model chassis
    where c: "Model row = CellStr model" "ChassisCode row = CellStr chassis"
    by (cases "Model row"; cases "ChassisCode row") auto
  from Cons have "apply_rows (\<lambda>row. matches_any_term terms (Model row) (ChassisCode row)) rows =
           Inr (map (\<lambda>row. \<exists>t \<in> set terms. term_matches t row) rows)" by simp
  then show ?case by (simp add: matches_any_term_texts [OF c])
qed

lemma apply_rows_missing:
  assumes "\<exists>row \<in> set df. Model row = CellNaN \<or> ChassisCode row = CellNaN"
  shows "apply_rows (\<lambda>row. matches_any_term terms (Model row) (ChassisCode row)) df =
           Inl AttributeError"
  using assms
proof (induction df)
  case Nil
  then show ?case by simp
next
  case (Cons row rows)
  show ?case
  proof (cases "Model row = CellNaN \<or> ChassisCode row = CellNaN")
    case True
    then show ?thesis by (simp add: matches_any_term_missing)
  next
    case False
    with Cons.prems have "\<exists>row \<in> set rows. Model row = CellNaN \<or> ChassisCode row = CellNaN"
      by auto
    then have r: "apply_rows (\<lambda>row. matches_any_term terms (Model row) (ChassisCode row)) rows =
           Inl AttributeError" by (rule Cons.IH)
    show ?thesis
    proof (cases "matches_any_term terms (Model row) (ChassisCode row)")
      case (Inl e)
      then show ?thesis using matches_any_term_error [OF Inl] by simp
    next
      case (Inr b)
      then show ?thesis by (simp add: r)
    qed
  qed
qed

lemma select_rows_map: "select_rows df (map P df) = filter P df"
  unfolding select_rows_def by (induction df) auto

text \<open>
  With a search text that is not blank, a frame that holds a row without model name or
  without chassis code makes the text filter raise \<open>AttributeError\<close>.
\<close>

lemma text_filter_raises_on_missing_cell:
  assumes "str_strip s \<noteq> []"
    and "\<exists>row \<in> set df. Model row = CellNaN \<or> ChassisCode row = CellNaN"
  shows "text_filter (Some s) df = Inl AttributeError"
proof -
  from assms(1) have "s \<noteq> []" using str_strip_Nil by auto
  with assms(1) show ?thesis
    by (simp add: text_filter_def apply_rows_missing [OF assms(2)])
qed

lemma text_filter_nan_rows: "text_filter (Some ''civic'') nan_rows = Inl AttributeError"
  by code_simp

text \<open>
  Claim C1, as the code has it. With no search text, or a search text that is empty or
  blank, the text filter returns the rows unchanged. With any other search text, on a
  frame whose rows all have a model name and a chassis code, it keeps, in order, exactly
  the rows that some comma-separated, trimmed, lower-cased term matches: a term of more
  than one word by being equal to the lower-cased model name, any other term (of one
  word, or the empty term) by being one of the words of the lower-cased model name or
  equal to the lower-cased chassis code. The filter does not raise on such a frame.
\<close>

theorem text_filter_keeps_matching_rows:
  "text_filter None df = Inr df \<and>
   (str_strip s = [] \<longrightarrow> text_filter (Some s) df = Inr df) \<and>
   (str_strip s \<noteq> [] \<and> (\<forall>row \<in> set df. Model row \<noteq> CellNaN \<and> ChassisCode row \<noteq> CellNaN) \<longrightarrow>
      text_filter (Some s) df =
        Inr (filter (\<lambda>row. \<exists>t \<in> set (map (\<lambda>t. str_lower (str_strip t)) (str_split CHR '','' s)).
                              term_matches t row) df))"
proof (intro conjI impI)
  show "text_filter None df = Inr df" by (simp add: text_filter_def)
next
  assume "str_strip s = []"
  then show "text_filter (Some s) df = Inr df" by (simp add: text_filter_def)
next
  assume a: "str_strip s \<noteq> [] \<and> (\<forall>row \<in> set df. Model row \<noteq> CellNaN \<and> ChassisCode row \<noteq> CellNaN)"
  then have "s \<noteq> []" using str_strip_Nil by auto
  moreover from a have "\<forall>row \<in> set df. Model row \<noteq> CellNaN \<and> ChassisCode row \<noteq> CellNaN" by simp
  ultimately show "text_filter (Some s) df =
        Inr (filter (\<lambda>row. \<exists>t \<in> set (map (\<lambda>t. str_lower (str_strip t)) (str_split CHR '','' s)).
                              term_matches t row) df)"
    using a by (simp add: text_filter_def apply_rows_texts select_rows_map search_terms_def)
qed

theorem text_filter_keeps_matching_rows_witness:
  "list_all (\<lambda>row. Model row \<noteq> CellNaN \<and> ChassisCode row \<noteq> CellNaN) sample_rows \<and>
   str_strip '' TYPE r ,992.1'' \<noteq> [] \<and> str_strip ''civic'' \<noteq> [] \<and> str_strip ''   '' = [] \<and>
   text_filter (Some '' TYPE r ,992.1'') sample_rows = Inr [sample_rows ! 1, sample_rows ! 2] \<and>
   text_filter (Some ''civic'') sample_rows = Inr [sample_rows ! 0, sample_rows ! 3] \<and>
   text_filter (Some ''   '') sample_rows = Inr sample_rows"
proof -
  have h: "list_all (\<lambda>row. Model row \<noteq> CellNaN \<and> ChassisCode row \<noteq> CellNaN) sample_rows"
    by code_simp
  then have hyp: "\<forall>row \<in> set sample_rows. Model row \<noteq> CellNaN \<and> ChassisCode row \<noteq> CellNaN"
    by (simp only: list_all_iff)
  have a: "filter (\<lambda>row. \<exists>t \<in> set (map (\<lambda>t. str_lower (str_strip t)) (str_split CHR '','' '' TYPE r ,992.1'')).
                            term_matches t row) sample_rows = [sample_rows ! 1, sample_rows ! 2]"
    by code_simp
  have b: "filter (\<lambda>row. \<exists>t \<in> set (map (\<lambda>t. str_lower (str_strip t)) (str_split CHR '','' ''civic'')).
                            term_matches t row) sample_rows = [sample_rows ! 0, sample_rows ! 3]"
    by code_simp
  have c: "str_strip '' TYPE r ,992.1'' \<noteq> []" "str_strip ''civic'' \<noteq> []" "str_strip ''   '' = []"
    by code_simp+
  from text_filter_keeps_matching_rows [of sample_rows "'' TYPE r ,992.1''"]
    text_filter_keeps_matching_rows [of sample_rows "''civic''"]
    text_filter_keeps_matching_rows [of sample_rows "''   ''"] h hyp a b c
  show ?thesis by simp
qed

text \<open>
  Claim C1 as the specification words it fails on the empty term: the search text \<open>,\<close> is
  not blank and its two terms are empty, so no rule of the claim lets a term match, but
  the code puts the empty term under the rule of the single-word terms and keeps a row
  whose chassis code is the empty text.
\<close>

theorem text_filter_empty_term_counterexample:
  "str_strip '','' \<noteq> [] \<and> search_terms '','' = [[], []] \<and>
   map ChassisCode bare_rows = [CellStr []] \<and>
   text_filter (Some '','') bare_rows = Inr bare_rows \<and>
   spec_text_filter '','' bare_rows = []"
  by code_simp

text \<open>The whitespace and the capitals of Latin-1 beyond ASCII: a search text of no-break
  spaces is blank, and the capital E with an acute accent (201) is lowered to 233.\<close>

lemma latin1_examples:
  "str_strip [CHR 0xA0, CHR 0x85] = [] \<and> str_lower [CHR 0xC9, CHR 0xD7, CHR 0xDE] = [CHR 0xE9, CHR 0xD7, CHR 0xFE] \<and>
   text_filter (Some [CHR 0xA0]) sample_rows = Inr sample_rows"
  by code_simp
section \<open>Properties of the float model\<close>

lemma two_powi_pos: "0 < (2::rat) powi z"
  by simp

lemma two_powi_less_cancel: "(2::rat) powi a < 2 powi b \<Longrightarrow> a < b"
proof (rule ccontr)
  assume lt: "(2::rat) powi a < 2 powi b" and "\<not> a < b"
  then have "b \<le> a" by simp
  then have "(2::rat) powi b \<le> 2 powi a" by (intro power_int_increasing) simp_all
  with lt show False by simp
qed

lemma two_powi_succ: "(2::rat) powi (z + 1) = 2 * 2 powi z"
  by (simp add: power_int_add)

lemma floor_log2_bounds:
  assumes "0 < q"
  shows "2 powi floor_log2 q \<le> q \<and> q < 2 powi (floor_log2 q + 1)"
proof -
  obtain a b where ab: "quotient_of q = (a, b)" by (cases "quotient_of q") auto
  then have b: "0 < b" by (rule quotient_of_denom_pos)
  have q: "q = of_int a / of_int b" using ab by (rule quotient_of_div)
  with assms b have a: "0 < a" by (simp add: zero_less_divide_iff)
  let ?la = "bitlen a" and ?lb = "bitlen b"
  have la: "1 \<le> ?la" and lb: "1 \<le> ?lb" using a b by (auto simp: bitlen_alt_def)
  from bitlen_bounds [OF a] have "(2::int) ^ nat (?la - 1) \<le> a" "a < 2 ^ nat ?la" by auto
  then have "(of_int ((2::int) ^ nat (?la - 1)) :: rat) \<le> of_int a" "(of_int a :: rat) < of_int (2 ^ nat ?la)"
    by (simp_all only: of_int_le_iff of_int_less_iff)
  then have a1: "(2::rat) powi (?la - 1) \<le> of_int a" and a2: "(of_int a :: rat) < 2 powi ?la"
    using la by (simp_all add: power_int_def)
  from bitlen_bounds [OF b] have "(2::int) ^ nat (?lb - 1) \<le> b" "b < 2 ^ nat ?lb" by auto
  then have "(of_int ((2::int) ^ nat (?lb - 1)) :: rat) \<le> of_int b" "(of_int b :: rat) < of_int (2 ^ nat ?lb)"
    by (simp_all only: of_int_le_iff of_int_less_iff)
  then have b1: "(2::rat) powi (?lb - 1) \<le> of_int b" and b2: "(of_int b :: rat) < 2 powi ?lb"
    using lb by (simp_all add: power_int_def)
  let ?z = "?la - ?lb"
  have bpos: "(0::rat) < of_int b" using b by simp
  have upper: "q < 2 powi (?z + 1)"
  proof -
    have "of_int a < (2::rat) powi ?la" by (rule a2)
    also have "\<dots> = 2 powi (?z + 1) * 2 powi (?lb - 1)"
      by (simp flip: power_int_add)
    also have "\<dots> \<le> 2 powi (?z + 1) * of_int b"
      using b1 by (intro mult_left_mono) simp_all
    finally show ?thesis using bpos by (simp add: q pos_divide_less_eq)
  qed
  have lower: "2 powi (?z - 1) \<le> q"
  proof -
    have "(2::rat) powi (?z - 1) * of_int b \<le> 2 powi (?z - 1) * 2 powi ?lb"
      using b2 by (intro mult_left_mono) simp_all
    also have "\<dots> = 2 powi (?la - 1)" by (simp flip: power_int_add)
    also have "\<dots> \<le> of_int a" by (rule a1)
    finally show ?thesis using bpos by (simp add: q pos_le_divide_eq)
  qed
  show ?thesis
  proof (cases "2 powi ?z \<le> q")
    case True
    then have "floor_log2 q = ?z" by (simp add: floor_log2_def ab)
    with True upper show ?thesis by simp
  next
    case False
    then have "floor_log2 q = ?z - 1" by (simp add: floor_log2_def ab)
    with False lower show ?thesis by simp
  qed
qed

lemma floor_log2_unique:
  assumes "2 powi z \<le> q" "q < 2 powi (z + 1)"
  shows "floor_log2 q = z"
proof -
  have "0 < (2::rat) powi z" by simp
  with assms(1) have pos: "0 < q" by linarith
  from floor_log2_bounds [OF pos]
  have b: "2 powi floor_log2 q \<le> q" "q < 2 powi (floor_log2 q + 1)" by auto
  from assms(1) b(2) have "(2::rat) powi z < 2 powi (floor_log2 q + 1)" by (rule le_less_trans)
  then have "z < floor_log2 q + 1" by (rule two_powi_less_cancel)
  moreover from b(1) assms(2) have "(2::rat) powi floor_log2 q < 2 powi (z + 1)" by (rule le_less_trans)
  then have "floor_log2 q < z + 1" by (rule two_powi_less_cancel)
  ultimately show ?thesis by simp
qed

lemma floor_log2_less:
  assumes "0 < q" "q < 2 powi z"
  shows "floor_log2 q < z"
proof -
  from floor_log2_bounds [OF assms(1)] assms(2)
  have "(2::rat) powi floor_log2 q < 2 powi z" by simp
  then show ?thesis by (rule two_powi_less_cancel)
qed

lemma floor_log2_ge:
  assumes "2 powi z \<le> q"
  shows "z \<le> floor_log2 q"
proof -
  have "0 < (2::rat) powi z" by simp
  with assms have pos: "0 < q" by linarith
  from floor_log2_bounds [OF pos] assms
  have "(2::rat) powi z < 2 powi (floor_log2 q + 1)" by simp
  then have "z < floor_log2 q + 1" by (rule two_powi_less_cancel)
  then show ?thesis by simp
qed

lemma round_half_even_error: "\<bar>of_int (round_half_even q) - q\<bar> \<le> 1 / 2"
proof -
  have "of_int \<lfloor>q\<rfloor> \<le> q" "q < of_int \<lfloor>q\<rfloor> + 1" by linarith+
  then show ?thesis
    by (auto simp: round_half_even_def Let_def abs_le_iff)
qed

lemma round_half_even_of_int: "round_half_even (of_int k) = k"
  by (simp add: round_half_even_def)

lemma round_half_even_near:
  assumes "\<bar>q - of_int k\<bar> < 1 / 2"
  shows "round_half_even q = k"
proof -
  from round_half_even_error [of q] assms
  have "\<bar>(of_int (round_half_even q) :: rat) - of_int k\<bar> < 1" by linarith
  then have "\<bar>(of_int (round_half_even q - k) :: rat)\<bar> < 1" by simp
  then have "\<bar>round_half_even q - k\<bar> < 1"
    by (metis of_int_abs of_int_less_1_iff)
  then show ?thesis by simp
qed

lemma round_half_even_ge_int:
  assumes "of_int k \<le> q"
  shows "k \<le> round_half_even q"
proof -
  from assms have "k \<le> \<lfloor>q\<rfloor>" by (simp add: le_floor_iff)
  then show ?thesis by (auto simp: round_half_even_def Let_def)
qed

lemma round_half_even_le_int:
  assumes "q \<le> of_int k"
  shows "round_half_even q \<le> k"
proof (cases "q = of_int k")
  case True
  then show ?thesis by (simp add: round_half_even_of_int)
next
  case False
  with assms have "q < of_int k" by simp
  then have "\<lfloor>q\<rfloor> < k" by (simp add: floor_less_iff)
  then show ?thesis by (auto simp: round_half_even_def Let_def)
qed

lemma fl_scaled:
  assumes "q \<noteq> 0"
  shows "fl q = of_int (round_half_even (q / 2 powi ulp_exponent q)) * 2 powi ulp_exponent q"
  using assms by (simp add: fl_def)

lemma fl_error_ulp:
  "\<bar>fl q - q\<bar> \<le> 2 powi (ulp_exponent q - 1)"
proof (cases "q = 0")
  case True
  then show ?thesis by (simp add: fl_def)
next
  case False
  let ?e = "ulp_exponent q"
  let ?s = "(2::rat) powi ?e"
  have s: "0 < ?s" by simp
  have "fl q - q = (of_int (round_half_even (q / ?s)) - q / ?s) * ?s"
    using False s by (simp add: fl_scaled algebra_simps)
  then have "\<bar>fl q - q\<bar> = \<bar>of_int (round_half_even (q / ?s)) - q / ?s\<bar> * ?s"
    using s by (simp add: abs_mult)
  also have "\<dots> \<le> (1 / 2) * ?s"
    using round_half_even_error [of "q / ?s"] s by (intro mult_right_mono) simp_all
  also have "\<dots> = 2 powi (?e - 1)"
    by (simp add: power_int_diff)
  finally show ?thesis .
qed

lemma ulp_exponent_normal:
  assumes "- 1022 \<le> floor_log2 \<bar>q\<bar>"
  shows "ulp_exponent q = floor_log2 \<bar>q\<bar> - 52"
  using assms by (simp add: ulp_exponent_def)

lemma fl_error:
  assumes "0 < q" "- 1022 \<le> floor_log2 q"
  shows "\<bar>fl q - q\<bar> \<le> 2 powi (floor_log2 q - 53)"
proof -
  from assms have "ulp_exponent q = floor_log2 q - 52"
    by (simp add: ulp_exponent_def)
  with fl_error_ulp [of q] show ?thesis by simp
qed

lemma fl_error_below:
  assumes "0 < q" "1 \<le> q" "q < 2 powi z"
  shows "\<bar>fl q - q\<bar> \<le> 2 powi (z - 54)"
proof -
  from assms(2) have "(2::rat) powi 0 \<le> q" by simp
  then have ge: "0 \<le> floor_log2 q" by (rule floor_log2_ge)
  from assms(1,3) have lt: "floor_log2 q < z" by (rule floor_log2_less)
  from ge have "\<bar>fl q - q\<bar> \<le> 2 powi (floor_log2 q - 53)"
    by (intro fl_error assms) simp
  also have "\<dots> \<le> 2 powi (z - 54)"
    using lt by (intro power_int_increasing) simp_all
  finally show ?thesis .
qed

lemma fl_exact:
  assumes "q = of_int k * 2 powi j" "\<bar>k\<bar> < 2 ^ 53" "- 1074 \<le> j"
  shows "fl q = q"
proof (cases "q = 0")
  case True
  then show ?thesis by (simp add: fl_def)
next
  case False
  let ?e = "ulp_exponent q"
  have "\<bar>q\<bar> = of_int \<bar>k\<bar> * 2 powi j"
    by (simp add: assms(1) abs_mult)
  also have "\<dots> < of_int (2 ^ 53) * 2 powi j"
    using assms(2) by (intro mult_strict_right_mono) (simp_all only: of_int_less_iff zero_less_power_int zero_less_numeral)
  also have "\<dots> = 2 powi (53 + j)"
    by (simp add: power_int_add)
  finally have "\<bar>q\<bar> < 2 powi (53 + j)" .
  moreover have "0 < \<bar>q\<bar>" using False by simp
  ultimately have "floor_log2 \<bar>q\<bar> < 53 + j" by (intro floor_log2_less)
  with assms(3) have ej: "?e \<le> j" by (simp add: ulp_exponent_def)
  have "q / 2 powi ?e = of_int k * (2 powi j / 2 powi ?e)"
    by (simp add: assms(1))
  also have "2 powi j / (2::rat) powi ?e = 2 powi (j - ?e)"
    by (simp add: power_int_diff)
  also have "\<dots> = of_int (2 ^ nat (j - ?e))"
    using ej by (simp add: power_int_def)
  finally have "q / 2 powi ?e = of_int (k * 2 ^ nat (j - ?e))" by simp
  then have "round_half_even (q / 2 powi ?e) = k * 2 ^ nat (j - ?e)"
    by (simp only: round_half_even_of_int)
  then have "fl q = of_int (k * 2 ^ nat (j - ?e)) * 2 powi ?e"
    using fl_scaled [OF False] by simp
  also have "\<dots> = q / 2 powi ?e * 2 powi ?e"
    using \<open>q / 2 powi ?e = of_int (k * 2 ^ nat (j - ?e))\<close> by simp
  also have "\<dots> = q" by simp
  finally show ?thesis .
qed

lemma fl_of_int:
  assumes "\<bar>k\<bar> < 2 ^ 53"
  shows "fl (of_int k) = of_int k"
  using fl_exact [of "of_int k" k 0] assms by simp

lemma fl_of_nat:
  assumes "n < 2 ^ 53"
  shows "fl (of_nat n) = of_nat n"
  using fl_of_int [of "int n"] assms by simp

lemma fl_ge_pow:
  assumes "0 < q" "- 1022 \<le> floor_log2 q"
  shows "2 powi floor_log2 q \<le> fl q"
proof -
  let ?z = "floor_log2 q"
  have e: "ulp_exponent q = ?z - 52" using assms by (simp add: ulp_exponent_def)
  let ?s = "(2::rat) powi (?z - 52)"
  have s: "0 < ?s" by simp
  from floor_log2_bounds [OF assms(1)] have "2 powi ?z \<le> q" by simp
  then have "2 powi ?z / ?s \<le> q / ?s" using s by (simp add: divide_right_mono)
  moreover have "2 powi ?z / ?s = (2::rat) powi 52"
    by (simp flip: power_int_diff)
  ultimately have "of_int (2 ^ 52) \<le> q / ?s" by simp
  then have "2 ^ 52 \<le> round_half_even (q / ?s)" by (rule round_half_even_ge_int)
  then have "(of_int (2 ^ 52) :: rat) \<le> of_int (round_half_even (q / ?s))"
    by (simp only: of_int_le_iff)
  then have B: "of_int (2 ^ 52) * ?s \<le> of_int (round_half_even (q / ?s)) * ?s"
    using s by (intro mult_right_mono) simp_all
  have "(2::rat) powi 52 * 2 powi (?z - 52) = 2 powi (52 + (?z - 52))"
    by (rule power_int_add [symmetric]) simp
  then have A: "(2::rat) powi ?z = of_int (2 ^ 52) * ?s" by simp
  have C: "of_int (round_half_even (q / ?s)) * ?s = fl q"
    using assms(1) e by (simp add: fl_def)
  note A
  also note B
  also note C
  finally show ?thesis .
qed

lemma to_float_overflow:
  assumes "2 ^ 1024 \<le> q"
  shows "to_float q = Inf"
proof -
  have "(2::rat) powi 1024 \<le> q" using assms by simp
  then have z: "1024 \<le> floor_log2 q" by (rule floor_log2_ge)
  have pos: "0 < q" using assms by (rule less_le_trans [rotated]) simp
  have "(2::rat) ^ 1024 = 2 powi 1024" by simp
  also have "\<dots> \<le> 2 powi floor_log2 q" using z by (intro power_int_increasing) simp_all
  also have "\<dots> \<le> fl q" using pos z by (intro fl_ge_pow) simp_all
  finally show ?thesis by (simp add: to_float_def)
qed

lemma int_to_float_overflow:
  assumes "2 ^ 1024 \<le> n"
  shows "int_to_float n = Inl OverflowError"
proof -
  from assms have "(of_nat (2 ^ 1024) :: rat) \<le> of_nat n" by (simp only: of_nat_le_iff)
  then have "to_float (of_nat n) = Inf" by (intro to_float_overflow) simp
  then show ?thesis by (simp add: int_to_float_def)
qed

lemma to_float_exact_nat:
  assumes "n < 2 ^ 53"
  shows "to_float (of_nat n) = Finite (of_nat n)"
proof -
  have "(of_nat n :: rat) < of_nat (2 ^ 53)" using assms by (simp only: of_nat_less_iff)
  also have "\<dots> < 2 ^ 1024" by simp
  finally show ?thesis using assms by (simp add: to_float_def fl_of_nat)
qed

section \<open>Properties of \<open>parse_time_to_seconds\<close>\<close>

lemma digit_not_space: "is_digit c \<Longrightarrow> \<not> is_space c"
  by (auto simp: is_digit_def is_space_def Let_def)

lemma colon_not_digit: "\<not> is_digit CHR '':''"
  by (simp add: is_digit_def)

lemma point_not_digit: "\<not> is_digit CHR ''.''"
  by (simp add: is_digit_def)

lemma str_strip_id:
  assumes "s \<noteq> []" "\<not> is_space (hd s)" "\<not> is_space (last s)"
  shows "str_strip s = s"
proof -
  from assms(1,2) have a: "dropWhile is_space s = s" by (cases s) auto
  from assms(1,3) have "dropWhile is_space (rev s) = rev s"
    by (cases "rev s") (auto simp: last_rev [symmetric] hd_rev)
  with a show ?thesis by (simp add: str_strip_def)
qed

lemma takeWhile_digits_then:
  assumes "list_all is_digit ds" "\<not> is_digit c"
  shows "takeWhile is_digit (ds @ c # rest) = ds" "dropWhile is_digit (ds @ c # rest) = c # rest"
  using assms by (induction ds) auto

lemma takeWhile_all_digits:
  assumes "list_all is_digit ds"
  shows "takeWhile is_digit ds = ds" "dropWhile is_digit ds = []"
  using assms by (induction ds) auto

lemma sec_shape_last_digit:
  assumes "sec_shape s"
  shows "s \<noteq> [] \<and> is_digit (last s)"
proof -
  define d where "d = takeWhile is_digit s"
  define r where "r = dropWhile is_digit s"
  have s: "s = d @ r" by (simp add: d_def r_def)
  from assms have d: "d \<noteq> []" and
    r: "r = [] \<or> (tl r \<noteq> [] \<and> list_all is_digit (tl r))"
    unfolding sec_shape_def Let_def d_def r_def by auto
  have dd: "is_digit (last d)"
    using d unfolding d_def by (metis last_in_set set_takeWhileD)
  from r show ?thesis
  proof
    assume "r = []"
    with s d dd show ?thesis by simp
  next
    assume 2: "tl r \<noteq> [] \<and> list_all is_digit (tl r)"
    then obtain x xs where rx: "r = x # xs" "xs \<noteq> []" "list_all is_digit xs"
      by (cases r) auto
    then have "last s = last xs" using s by simp
    moreover have "is_digit (last xs)"
      using rx(2,3) by (metis last_in_set list_all_iff)
    ultimately show ?thesis using d s by simp
  qed
qed

lemma sec_shape_decimal_shape: "sec_shape s \<Longrightarrow> decimal_shape s"
  by (auto simp: sec_shape_def decimal_shape_def Let_def)

lemma parse_minutes_form:
  assumes "ds \<noteq> []" "list_all is_digit ds" "sec_shape sec" "length ds \<le> 4300"
  shows "parse_time_to_seconds (Some (ds @ CHR '':'' # sec)) =
           (case int_to_float (int_of_digits ds) of
              Inl e \<Rightarrow> Inl e
            | Inr m \<Rightarrow> Inr (fadd (fmul m (Finite 60)) (to_float (decimal_value sec))))"
proof -
  let ?s = "ds @ CHR '':'' # sec"
  from sec_shape_last_digit [OF assms(3)] have sec: "sec \<noteq> []" "is_digit (last sec)" by auto
  have "hd ?s = hd ds" using assms(1) by simp
  moreover have "is_digit (hd ds)" using assms(1,2) by (cases ds) auto
  ultimately have h: "\<not> is_space (hd ?s)" by (simp add: digit_not_space)
  have "last ?s = last sec" using sec(1) by simp
  with sec(2) have l: "\<not> is_space (last ?s)" by (simp add: digit_not_space)
  have strip: "str_strip ?s = ?s" by (rule str_strip_id) (use h l in auto)
  have m: "re_match_time ?s = Some (Some ds, sec)"
    using assms takeWhile_digits_then [OF assms(2) colon_not_digit, of sec]
    by (simp add: re_match_time_def)
  have f: "py_float sec = Inr (to_float (decimal_value sec))"
    using sec_shape_decimal_shape [OF assms(3)] by (simp add: py_float_def)
  show ?thesis
    using assms(4) by (simp add: parse_time_to_seconds_def py_int_def strip m f split: sum.splits)
qed

lemma parse_minutes_too_long:
  assumes "list_all is_digit ds" "sec_shape sec" "4300 < length ds"
  shows "parse_time_to_seconds (Some (ds @ CHR '':'' # sec)) = Inl ValueError"
proof -
  let ?s = "ds @ CHR '':'' # sec"
  from assms(3) have ne: "ds \<noteq> []" by auto
  from sec_shape_last_digit [OF assms(2)] have sec: "sec \<noteq> []" "is_digit (last sec)" by auto
  have "hd ?s = hd ds" using ne by simp
  moreover have "is_digit (hd ds)" using ne assms(1) by (cases ds) auto
  ultimately have h: "\<not> is_space (hd ?s)" by (simp add: digit_not_space)
  have "last ?s = last sec" using sec(1) by simp
  with sec(2) have l: "\<not> is_space (last ?s)" by (simp add: digit_not_space)
  have strip: "str_strip ?s = ?s" by (rule str_strip_id) (use h l in auto)
  have m: "re_match_time ?s = Some (Some ds, sec)"
    using assms ne takeWhile_digits_then [OF assms(1) colon_not_digit, of sec]
    by (simp add: re_match_time_def)
  show ?thesis
    using assms(3) by (simp add: parse_time_to_seconds_def py_int_def strip m)
qed

lemma digit_val_0: "digit_val CHR ''0'' = 0"
  by (simp add: digit_val_def)

lemma int_of_digits_snoc: "int_of_digits (ds @ [c]) = 10 * int_of_digits ds + digit_val c"
  by (simp add: int_of_digits_def)

lemma int_of_digits_zeros: "int_of_digits (ds @ replicate n CHR ''0'') = int_of_digits ds * 10 ^ n"
proof (induction n)
  case 0
  then show ?case by simp
next
  case (Suc n)
  have "ds @ replicate (Suc n) CHR ''0'' = (ds @ replicate n CHR ''0'') @ [CHR ''0'']"
    by (simp add: replicate_append_same)
  then show ?case using Suc by (simp only: int_of_digits_snoc digit_val_0) simp
qed

lemma is_digit_0: "is_digit CHR ''0''"
  by (simp add: is_digit_def)

lemma huge_minutes_overflow:
  assumes "sec_shape sec"
  shows "parse_time_to_seconds (Some ((CHR ''1'' # replicate 309 CHR ''0'') @ CHR '':'' # sec)) = Inl OverflowError"
proof -
  let ?ds = "CHR ''1'' # replicate 309 CHR ''0''"
  have d: "list_all is_digit ?ds" by (simp add: list_all_iff is_digit_def)
  have "int_of_digits ?ds = int_of_digits [CHR ''1''] * 10 ^ 309"
    using int_of_digits_zeros [of "[CHR ''1'']" 309] by simp
  also have "int_of_digits [CHR ''1''] = 1" by (simp add: int_of_digits_def digit_val_def)
  finally have v: "int_of_digits ?ds = 10 ^ 309" by simp
  have "int_to_float (10 ^ 309) = Inl OverflowError"
    by (rule int_to_float_overflow) simp
  with v have "int_to_float (int_of_digits ?ds) = Inl OverflowError" by simp
  with parse_minutes_form [OF _ d assms] show ?thesis by simp
qed

lemma fl_nonneg:
  assumes "0 \<le> q"
  shows "0 \<le> fl q"
proof (cases "q = 0")
  case True
  then show ?thesis by (simp add: fl_def)
next
  case False
  let ?s = "(2::rat) powi ulp_exponent q"
  have "of_int 0 \<le> q / ?s" using assms by simp
  then have "0 \<le> round_half_even (q / ?s)" by (rule round_half_even_ge_int)
  then show ?thesis using False by (simp add: fl_def)
qed

lemma to_float_dyadic:
  assumes "0 \<le> k" "k < 2 ^ 53" "n \<le> 1074"
  shows "to_float (of_int k / 2 ^ n) = Finite (of_int k / 2 ^ n)"
proof -
  let ?q = "(of_int k / 2 ^ n) :: rat"
  have "?q = of_int k * 2 powi (- int n)"
    by (simp add: power_int_minus divide_inverse)
  then have e: "fl ?q = ?q"
    using assms by (intro fl_exact [of _ k "- int n"]) simp_all
  have "?q \<le> of_int k"
    using assms(1) by (simp add: divide_le_eq mult_le_cancel_left1)
  also have "\<dots> < of_int (2 ^ 53)" using assms(2) by (simp only: of_int_less_iff)
  also have "\<dots> < (2::rat) ^ 1024" by simp
  finally show ?thesis by (simp add: to_float_def e)
qed

lemma to_float_nat: "n < 2 ^ 53 \<Longrightarrow> to_float (of_nat n) = Finite (of_nat n)"
  using to_float_dyadic [of "int n" 0] by simp

lemma to_float_half: "n < 2 ^ 53 \<Longrightarrow> to_float (of_nat n / 2) = Finite (of_nat n / 2)"
  using to_float_dyadic [of "int n" 1] by simp

lemma int_to_float_small: "n < 2 ^ 53 \<Longrightarrow> int_to_float n = Inr (Finite (of_nat n))"
  by (simp add: int_to_float_def to_float_nat)

lemma round_half_even_abs_le:
  assumes "\<bar>q\<bar> \<le> of_int k"
  shows "\<bar>round_half_even q\<bar> \<le> k"
proof -
  from assms have "q \<le> of_int k" "of_int (- k) \<le> q" by (auto simp: abs_le_iff)
  then have "round_half_even q \<le> k" "- k \<le> round_half_even q"
    by (auto intro: round_half_even_le_int round_half_even_ge_int)
  then show ?thesis by simp
qed

lemma fl_idem: "fl (fl q) = fl q"
proof (cases "q = 0")
  case True
  then show ?thesis by (simp add: fl_def)
next
  case False
  let ?e = "ulp_exponent q"
  let ?K = "round_half_even (q / 2 powi ?e)"
  have e: "- 1074 \<le> ?e" "floor_log2 \<bar>q\<bar> - 52 \<le> ?e" by (simp_all add: ulp_exponent_def)
  have flq: "fl q = of_int ?K * 2 powi ?e" using False by (simp add: fl_def)
  have pos: "0 < \<bar>q\<bar>" using False by simp
  from floor_log2_bounds [OF pos] have "\<bar>q\<bar> < 2 powi (floor_log2 \<bar>q\<bar> + 1)" by simp
  also have "\<dots> \<le> 2 powi (?e + 53)"
    using e(2) by (intro power_int_increasing) simp_all
  also have "\<dots> = 2 powi ?e * 2 ^ 53"
    by (simp add: power_int_add)
  finally have "\<bar>q\<bar> / 2 powi ?e < 2 ^ 53"
    by (simp add: pos_divide_less_eq mult.commute)
  then have "\<bar>q / 2 powi ?e\<bar> \<le> of_int (2 ^ 53)" by (simp add: abs_divide)
  then have K: "\<bar>?K\<bar> \<le> 2 ^ 53" by (rule round_half_even_abs_le)
  show ?thesis
  proof (cases "\<bar>?K\<bar> < 2 ^ 53")
    case True
    show ?thesis by (rule fl_exact [of _ ?K ?e]) (use flq True e in simp_all)
  next
    case False
    with K have "\<bar>?K\<bar> = 2 ^ 53" by simp
    then have "?K = 2 ^ 53 \<or> ?K = - (2 ^ 53)" by (simp add: abs_eq_iff')
    then have "fl q = of_int (sgn ?K) * 2 powi (?e + 53)"
      by (auto simp: flq power_int_add)
    moreover have "\<bar>sgn ?K\<bar> < 2 ^ 53"
      by (simp add: abs_sgn_eq)
    ultimately show ?thesis
      by (intro fl_exact [of _ "sgn ?K" "?e + 53"]) (use e in simp_all)
  qed
qed

lemma to_float_idem:
  assumes "to_float q = Finite x"
  shows "to_float x = Finite x"
proof -
  from assms have "fl q = x" "\<not> 2 ^ 1024 \<le> x"
    by (auto simp: to_float_def split: if_splits)
  with fl_idem [of q] show ?thesis by (simp add: to_float_def)
qed

lemma parse_seconds_form:
  assumes "sec_shape sec"
  shows "parse_time_to_seconds (Some sec) = Inr (to_float (decimal_value sec))"
proof -
  define d where "d = takeWhile is_digit sec"
  define r where "r = dropWhile is_digit sec"
  from sec_shape_last_digit [OF assms] have ne: "sec \<noteq> []" and l: "is_digit (last sec)" by auto
  from assms have d: "d \<noteq> []" and r: "r = [] \<or> hd r = CHR ''.''"
    unfolding sec_shape_def Let_def d_def r_def by auto
  from d have "is_digit (hd sec)" unfolding d_def by (cases sec) (auto split: if_splits)
  then have strip: "str_strip sec = sec"
    using ne l by (intro str_strip_id) (simp_all add: digit_not_space)
  from r have nc: "\<not> (d \<noteq> [] \<and> r \<noteq> [] \<and> hd r = CHR '':'' \<and> sec_shape (tl r))" by auto
  have m: "re_match_time sec = Some (None, sec)"
    using assms nc unfolding re_match_time_def Let_def d_def r_def by (simp only: if_False if_True)
  have f: "py_float sec = Inr (to_float (decimal_value sec))"
    using sec_shape_decimal_shape [OF assms] by (simp add: py_float_def)
  have z: "int_to_float 0 = Inr (Finite 0)" using int_to_float_small [of 0] by simp
  have z60: "to_float 0 = Finite 0" using to_float_nat [of 0] by simp
  have "fadd (fmul (Finite 0) (Finite 60)) (to_float (decimal_value sec)) = to_float (decimal_value sec)"
    by (cases "to_float (decimal_value sec)") (simp_all add: z60 to_float_idem)
  then show ?thesis
    by (simp add: parse_time_to_seconds_def strip m f z)
qed

lemma parse_no_number:
  assumes "\<not> is_space (hd s)" "\<not> is_space (last s)" "list_all (\<lambda>c. \<not> is_digit c) s"
  shows "parse_time_to_seconds (Some s) = Inr NaN"
proof (cases "s = []")
  case True
  then show ?thesis
    by (simp add: parse_time_to_seconds_def str_strip_def re_match_time_def sec_shape_def)
next
  case False
  then have strip: "str_strip s = s" using assms by (intro str_strip_id)
  from False assms(3) have t: "takeWhile is_digit s = []" by (cases s) auto
  have m: "re_match_time s = None"
    by (simp add: re_match_time_def sec_shape_def Let_def t)
  have "findall_nums s = []" using assms(3) by (induction s) auto
  then show ?thesis by (simp add: parse_time_to_seconds_def strip m)
qed

lemma parse_time_examples:
  "parse_time_to_seconds (Some ''1:05.5'') = Inr (Finite 65.5) \<and>
   parse_time_to_seconds (Some ''5.5'') = Inr (Finite 5.5) \<and>
   parse_time_to_seconds (Some ''1:99.5'') = Inr (Finite 159.5) \<and>
   parse_time_to_seconds (Some []) = Inr NaN \<and>
   parse_time_to_seconds None = Inr NaN \<and>
   parse_time_to_seconds (Some ''abc'') = Inr NaN"
proof -
  have d: "is_digit CHR ''0''" "is_digit CHR ''1''" "is_digit CHR ''5''" "is_digit CHR ''9''"
    by (simp_all add: is_digit_def)
  have s1: "sec_shape ''05.5''" "sec_shape ''5.5''" "sec_shape ''99.5''"
    by (simp_all add: sec_shape_def d point_not_digit)
  have v: "decimal_value ''05.5'' = 11 / 2" "decimal_value ''5.5'' = 11 / 2"
    "decimal_value ''99.5'' = 199 / 2"
    by (simp_all add: decimal_value_def d point_not_digit int_of_digits_def digit_val_def)
  have one: "int_of_digits ''1'' = 1" by (simp add: int_of_digits_def digit_val_def)
  have f: "to_float (11 / 2) = Finite (11 / 2)" "to_float (199 / 2) = Finite (199 / 2)"
    "to_float 60 = Finite 60" "to_float (131 / 2) = Finite (131 / 2)"
    "to_float (319 / 2) = Finite (319 / 2)"
    using to_float_half [of 11] to_float_half [of 199] to_float_nat [of 60]
      to_float_half [of 131] to_float_half [of 319] by simp_all
  have a: "parse_time_to_seconds (Some ''1:05.5'') = Inr (Finite 65.5)"
    using parse_minutes_form [of "''1''" "''05.5''"] s1 d int_to_float_small [of 1]
    by (simp add: one v f)
  have b: "parse_time_to_seconds (Some ''5.5'') = Inr (Finite 5.5)"
    using parse_seconds_form [OF s1(2)] by (simp add: v f)
  have c: "parse_time_to_seconds (Some ''1:99.5'') = Inr (Finite 159.5)"
    using parse_minutes_form [of "''1''" "''99.5''"] s1 d int_to_float_small [of 1]
    by (simp add: one v f)
  have e: "parse_time_to_seconds (Some []) = Inr NaN"
    by (simp add: parse_time_to_seconds_def str_strip_def re_match_time_def sec_shape_def)
  have n: "parse_time_to_seconds None = Inr NaN"
    by (simp add: parse_time_to_seconds_def)
  have x: "parse_time_to_seconds (Some ''abc'') = Inr NaN"
    by (rule parse_no_number) (simp_all add: is_space_def is_digit_def)
  from a b c e n x show ?thesis by blast
qed

lemma parse_minutes_form_not_absent:
  assumes "ds \<noteq> []" "list_all is_digit ds" "sec_shape sec"
    "int_to_float (int_of_digits ds) = Inr m" "length ds \<le> 4300"
  shows "parse_time_to_seconds (Some (ds @ CHR '':'' # sec)) =
           Inr (fadd (fmul m (Finite 60)) (to_float (decimal_value sec))) \<and>
         fadd (fmul m (Finite 60)) (to_float (decimal_value sec)) \<noteq> NaN"
proof -
  from assms(4) obtain x where m: "m = Finite x"
    by (cases "to_float (of_nat (int_of_digits ds))") (auto simp: int_to_float_def to_float_def split: if_splits)
  have t: "to_float q \<noteq> NaN" for q by (simp add: to_float_def)
  have "fadd (fmul m (Finite 60)) (to_float (decimal_value sec)) \<noteq> NaN"
    unfolding m
    by (cases "to_float (x * 60)"; cases "to_float (decimal_value sec)") (simp_all add: t)
  with parse_minutes_form [OF assms(1-3) assms(5)] assms(4) show ?thesis by simp
qed

text \<open>
  Claim C3. The three branches of \<open>parse_time_to_seconds\<close> are as the claim says
  (\<open>parse_minutes_form\<close>, \<open>parse_seconds_form\<close>, \<open>parse_no_number\<close>,
  \<open>parse_time_examples\<close>), but the function does raise: a minutes field of 310 digits is
  an integer too large for \<open>minutes * 60.0\<close>, and the \<open>OverflowError\<close> of that
  multiplication is outside the \<open>try\<close>.
\<close>

theorem parse_time_raises_on_huge_minutes:
  "parse_time_to_seconds (Some ((CHR ''1'' # replicate 309 CHR ''0'') @ '':00'')) = Inl OverflowError"
proof -
  have "sec_shape ''00''" by (simp add: sec_shape_def is_digit_def)
  then show ?thesis by (rule huge_minutes_overflow)
qed

text \<open>
  Claim C10. No range check is made on the seconds field: \<open>1:99.5\<close> gives 159.5, and
  every text of the minutes form gives minutes times 60 plus seconds whenever the
  minutes field has at most 4300 digits and converts to a float
  (\<open>parse_minutes_form_not_absent\<close>). With a minutes field of 310 digits the same text
  raises \<open>OverflowError\<close> instead of returning a value.
\<close>

theorem parse_time_seconds_99_huge_minutes_raises:
  "parse_time_to_seconds (Some ''1:99.5'') = Inr (Finite 159.5) \<and>
   parse_time_to_seconds (Some ((CHR ''1'' # replicate 309 CHR ''0'') @ '':99.5'')) = Inl OverflowError"
proof -
  have "sec_shape ''99.5''" by (simp add: sec_shape_def is_digit_def)
  then have "parse_time_to_seconds (Some ((CHR ''1'' # replicate 309 CHR ''0'') @ '':99.5'')) = Inl OverflowError"
    by (rule huge_minutes_overflow)
  with parse_time_examples show ?thesis by blast
qed

section \<open>Properties of \<open>seconds_to_duration\<close> and the round trip\<close>

lemma char_48: "char_of (48::nat) = CHR ''0''"
  by code_simp


lemma digits_of_small: "n < 10 \<Longrightarrow> digits_of n = [char_of (48 + n)]"
  by (simp add: digits_of.simps)

lemma digits_of_big: "10 \<le> n \<Longrightarrow> digits_of n = digits_of (n div 10) @ [char_of (48 + n mod 10)]"
  by (subst digits_of.simps) simp

lemma digits_of_two:
  assumes "1 \<le> a" "a < 10" "b < 10"
  shows "digits_of (10 * a + b) = [char_of (48 + a), char_of (48 + b)]"
proof -
  have "(10 * a + b) div 10 = a" "(10 * a + b) mod 10 = b" using assms by simp_all
  moreover have "10 \<le> 10 * a + b" using assms by simp
  ultimately show ?thesis using assms by (simp add: digits_of_big digits_of_small)
qed

lemma digits_of_three:
  assumes "1 \<le> a" "a < 10" "b < 10" "c < 10"
  shows "digits_of (100 * a + 10 * b + c) = [char_of (48 + a), char_of (48 + b), char_of (48 + c)]"
proof -
  define n where "n = 10 * a + b"
  have e: "100 * a + 10 * b + c = 10 * n + c" by (simp add: n_def)
  have dm: "(10 * n + c) div 10 = n" "(10 * n + c) mod 10 = c" using assms(4) by simp_all
  have big: "10 \<le> 10 * n + c" using assms(1) by (simp add: n_def)
  have "digits_of (10 * n + c) = digits_of n @ [char_of (48 + c)]"
    using digits_of_big [OF big] by (simp only: dm)
  also have "digits_of n = [char_of (48 + a), char_of (48 + b)]"
    unfolding n_def using assms(1-3) by (rule digits_of_two)
  finally show ?thesis by (simp only: e append.simps)
qed

lemma pad2_digits:
  assumes "a < 10" "b < 10"
  shows "zero_pad 2 (digits_of (10 * a + b)) = [char_of (48 + a), char_of (48 + b)]"
proof (cases "a = 0")
  case True
  then show ?thesis using assms by (simp add: digits_of_small zero_pad_def char_48)
next
  case False
  then show ?thesis using assms by (simp add: digits_of_two zero_pad_def)
qed

lemma pad3_digits:
  assumes "a < 10" "b < 10" "c < 10"
  shows "zero_pad 3 (digits_of (100 * a + 10 * b + c)) =
           [char_of (48 + a), char_of (48 + b), char_of (48 + c)]"
proof (cases "a = 0")
  case a0: True
  show ?thesis
  proof (cases "b = 0")
    case True
    with a0 show ?thesis using assms
      by (simp add: digits_of_small zero_pad_def char_48 numeral_3_eq_3)
  next
    case False
    with a0 show ?thesis using assms
      by (simp add: digits_of_two zero_pad_def char_48)
  qed
next
  case False
  then show ?thesis using assms by (simp add: digits_of_three zero_pad_def)
qed

lemma float_divmod_exact:
  assumes "0 \<le> x" "x < 2 ^ 53"
  shows "float_divmod x 60 = (of_int \<lfloor>x / 60\<rfloor>, x - 60 * of_int \<lfloor>x / 60\<rfloor>)"
proof -
  define k where "k = \<lfloor>x / 60\<rfloor>"
  have k0: "0 \<le> k" using assms(1) by (simp add: k_def)
  have kx: "60 * of_int k \<le> x"
    using of_int_floor_le [of "x / 60"] unfolding k_def by linarith
  have m0: "py_fmod x 60 = x - 60 * of_int k"
    using assms(1) by (simp add: py_fmod_def k_def)
  have mnn: "\<not> py_fmod x 60 < 0" using kx unfolding m0 by linarith
  have "(of_int (60 * k) :: rat) < of_int (2 ^ 53)"
    using kx assms(2) by simp
  then have "60 * k < 2 ^ 53" by (simp only: of_int_less_iff)
  then have b60: "\<bar>60 * k\<bar> < 2 ^ 53" and bk: "\<bar>k\<bar> < 2 ^ 53" using k0 by linarith+
  have "x - py_fmod x 60 = of_int (60 * k)" unfolding m0 by simp
  then have "fl (x - py_fmod x 60) = of_int (60 * k)" using fl_of_int [OF b60] by simp
  then have "fl (x - py_fmod x 60) / 60 = of_int k" by simp
  then have d0: "fl (fl (x - py_fmod x 60) / 60) = of_int k" using fl_of_int [OF bk] by simp
  have fd: "(if (of_int k :: rat) \<noteq> 0
             then (if 1 / 2 < (of_int k :: rat) - of_int \<lfloor>(of_int k :: rat)\<rfloor> then of_int \<lfloor>(of_int k :: rat)\<rfloor> + 1
                   else of_int \<lfloor>(of_int k :: rat)\<rfloor>)
             else 0) = (of_int k :: rat)"
    by simp
  have "float_divmod x 60 = (of_int k, x - 60 * of_int k)"
    unfolding float_divmod_def Let_def d0 using mnn fd by (simp add: m0)
  then show ?thesis by (simp add: k_def)
qed
lemma fl_error_small:
  assumes "0 \<le> q" "q < 2 powi z" "- 1021 \<le> z"
  shows "\<bar>fl q - q\<bar> \<le> 2 powi (z - 54)"
proof (cases "q = 0")
  case True
  then show ?thesis by (simp add: fl_def)
next
  case False
  with assms(1) have pos: "0 < q" by simp
  then have "floor_log2 q < z" using assms(2) by (rule floor_log2_less)
  then have "ulp_exponent q \<le> z - 53"
    using assms(3) pos by (simp add: ulp_exponent_def)
  then have "(2::rat) powi (ulp_exponent q - 1) \<le> 2 powi (z - 54)"
    by (intro power_int_increasing) simp_all
  with fl_error_ulp [of q] show ?thesis by linarith
qed



lemma duration_format:
  fixes N :: nat
  assumes "\<bar>x - of_nat N / 1000\<bar> \<le> 2 powi (- 40)" "N mod 60000 = 0 \<longrightarrow> x = of_nat N / 1000"
    "0 \<le> x" "x < 2 ^ 53"
  shows "seconds_to_duration (Finite x) 3 =
           Inr (zero_pad 2 (digits_of (N div 60000)) @ CHR '':'' #
                zero_pad 2 (digits_of (N mod 60000 div 1000)) @ CHR ''.'' #
                zero_pad 3 (digits_of (N mod 1000)))"
proof -
  define K where "K = N div 60000"
  define R where "R = N mod 60000"
  have N: "N = 60000 * K + R" and R: "R < 60000" by (simp_all add: K_def R_def)
  have "(of_nat N :: rat) = 60000 * of_nat K + of_nat R"
    by (simp add: N)
  then have q: "(of_nat N / 1000 :: rat) = 60 * of_nat K + of_nat R / 1000" by simp
  have p40: "(2::rat) powi (- 40) < 1 / 2000" by (simp add: power_int_minus field_simps)
  have xq: "\<bar>x - (60 * of_nat K + of_nat R / 1000)\<bar> < 1 / 2000"
    using assms(1) p40 unfolding q by linarith
  have fl: "\<lfloor>x / 60\<rfloor> = int K"
  proof (cases "R = 0")
    case True
    with assms(2) have "x = 60 * of_nat K" by (simp add: R_def [symmetric] q)
    then show ?thesis by simp
  next
    case False
    then have "1 \<le> R" "R \<le> 59999" using R by simp_all
    then have "(of_nat 1 :: rat) \<le> of_nat R" "(of_nat R :: rat) \<le> of_nat 59999"
      by (simp_all only: of_nat_le_iff)
    then have r: "(1 :: rat) \<le> of_nat R" "(of_nat R :: rat) \<le> 59999" by simp_all
    have "60 * of_nat K \<le> x" "x < 60 * of_nat K + 60"
      using xq r by linarith+
    then have "of_nat K \<le> x / 60" "x / 60 < of_nat K + 1" by linarith+
    then have "of_int (int K) \<le> x / 60" "x / 60 < of_int (int K) + 1" by simp_all
    then show ?thesis by (rule floor_unique)
  qed
  define rem where "rem = x - 60 * of_int \<lfloor>x / 60\<rfloor>"
  define u where "u = x - (60 * of_nat K + of_nat R / 1000)"
  define t where "t = rem * 10 ^ 3 - of_int (int R)"
  have "t = 1000 * u" by (simp add: t_def u_def rem_def fl algebra_simps)
  moreover have "\<bar>u\<bar> < 1 / 2000" using xq by (simp only: u_def)
  ultimately have "\<bar>t\<bar> < 1 / 2" by linarith
  then have "\<bar>rem * 10 ^ 3 - of_int (int R)\<bar> < 1 / 2" by (simp only: t_def)
  then have "round_half_even (rem * 10 ^ 3) = int R" by (rule round_half_even_near)
  then have ff: "format_fixed 6 3 rem =
      zero_pad 2 (digits_of (R div 1000)) @ CHR ''.'' # zero_pad 3 (digits_of (R mod 1000))"
    by (simp add: format_fixed_def)
  have fi: "format_int 2 \<lfloor>x / 60\<rfloor> = zero_pad 2 (digits_of K)"
    by (simp add: format_int_def fl)
  have "R mod 1000 = N mod 1000"
    unfolding R_def by (simp add: mod_mod_cancel)
  with ff fi have "format_int 2 \<lfloor>x / 60\<rfloor> @ CHR '':'' # format_fixed 6 3 rem =
      zero_pad 2 (digits_of (N div 60000)) @ CHR '':'' #
      zero_pad 2 (digits_of (N mod 60000 div 1000)) @ CHR ''.'' #
      zero_pad 3 (digits_of (N mod 1000))"
    by (simp add: K_def R_def)
  then show ?thesis
    by (simp add: seconds_to_duration_def float_divmod_exact [OF assms(3,4)] rem_def)
qed

lemma seconds_to_duration_floor_mod:
  assumes "0 \<le> x" "x < 2 ^ 53"
  shows "seconds_to_duration (Finite x) decimals =
           Inr (format_int 2 \<lfloor>x / 60\<rfloor> @ CHR '':'' #
                (if decimals = 1 then format_fixed 4 1 (x - 60 * of_int \<lfloor>x / 60\<rfloor>)
                 else format_fixed 6 3 (x - 60 * of_int \<lfloor>x / 60\<rfloor>)))"
  by (simp add: seconds_to_duration_def Let_def float_divmod_exact [OF assms])




section \<open>Properties of the summary\<close>

lemma idxmin_from_spec:
  assumes "length pre = i" "best < i" "pre ! best = v"
    "\<forall>j < i. v \<le> pre ! j" "\<forall>j < best. v < pre ! j"
  shows "idxmin_from best v i ts < length (pre @ ts) \<and>
         (\<forall>j < length (pre @ ts). (pre @ ts) ! idxmin_from best v i ts \<le> (pre @ ts) ! j) \<and>
         (\<forall>j < idxmin_from best v i ts. (pre @ ts) ! idxmin_from best v i ts < (pre @ ts) ! j)"
  using assms
proof (induction ts arbitrary: pre i best v)
  case Nil
  then show ?case by simp
next
  case (Cons t ts)
  let ?pre = "pre @ [t]"
  have len: "length ?pre = Suc i" using Cons.prems(1) by simp
  show ?case
  proof (cases "t < v")
    case True
    have a: "i < Suc i" by simp
    have b: "?pre ! i = t" using Cons.prems(1) by (simp add: nth_append)
    have c: "\<forall>j < Suc i. t \<le> ?pre ! j"
    proof (intro allI impI)
      fix j assume "j < Suc i"
      then show "t \<le> ?pre ! j"
        using Cons.prems(1,4) True by (cases "j = i") (auto simp: nth_append less_Suc_eq)
    qed
    have d: "\<forall>j < i. t < ?pre ! j"
      using Cons.prems(1,4) True by (auto simp: nth_append)
    from Cons.IH [OF len a b c d] True show ?thesis by simp
  next
    case False
    have a: "best < Suc i" using Cons.prems(2) by simp
    have b: "?pre ! best = v" using Cons.prems(1,2,3) by (simp add: nth_append)
    have c: "\<forall>j < Suc i. v \<le> ?pre ! j"
    proof (intro allI impI)
      fix j assume "j < Suc i"
      then show "v \<le> ?pre ! j"
        using Cons.prems(1,4) False by (cases "j = i") (auto simp: nth_append less_Suc_eq)
    qed
    have d: "\<forall>j < best. v < ?pre ! j"
      using Cons.prems(1,2,5) by (auto simp: nth_append)
    from Cons.IH [OF len a b c d] False show ?thesis by simp
  qed
qed

lemma idxmin_first_minimum:
  assumes "ts \<noteq> []"
  shows "\<exists>k. idxmin ts = Some k \<and> k < length ts \<and> (\<forall>j < length ts. ts ! k \<le> ts ! j) \<and>
           (\<forall>j < k. ts ! k < ts ! j)"
proof -
  from assms obtain t rest where ts: "ts = t # rest" by (cases ts) auto
  have "idxmin_from 0 t 1 rest < length ([t] @ rest) \<and>
         (\<forall>j < length ([t] @ rest). ([t] @ rest) ! idxmin_from 0 t 1 rest \<le> ([t] @ rest) ! j) \<and>
         (\<forall>j < idxmin_from 0 t 1 rest. ([t] @ rest) ! idxmin_from 0 t 1 rest < ([t] @ rest) ! j)"
    by (rule idxmin_from_spec) simp_all
  with ts show ?thesis by simp
qed

text \<open>
  Claim C8. The summary of a frame is its number of rows, the number of distinct brands
  among them and, when the frame is not empty, one of its rows: a row whose \<open>Time_sec\<close>
  is least, and the first such row in the order of the frame. The summary of the empty
  frame is \<open>(0, 0, None)\<close>; the summary is a total function, so nothing is raised.
\<close>

theorem summary_counts_and_first_fastest:
  "summary_stats [] = (0, 0, None) \<and>
   fst (summary_stats df) = length df \<and>
   fst (snd (summary_stats df)) = card (Brand ` set df) \<and>
   (df \<noteq> [] \<longrightarrow>
      (\<exists>k < length df. snd (snd (summary_stats df)) = Some (df ! k) \<and>
         (\<forall>j < length df. Time_sec (df ! k) \<le> Time_sec (df ! j)) \<and>
         (\<forall>j < k. Time_sec (df ! k) < Time_sec (df ! j))))"
proof (intro conjI impI)
  show "summary_stats [] = (0, 0, None)"
    by (simp add: summary_stats_def total_vehicles_def total_brands_def fastest_row_def)
  show "fst (summary_stats df) = length df"
    by (simp add: summary_stats_def total_vehicles_def)
  have "length (remdups (map Brand df)) = card (Brand ` set df)"
    by (simp add: length_remdups_card_conv)
  then show "fst (snd (summary_stats df)) = card (Brand ` set df)"
    by (simp add: summary_stats_def total_brands_def)
next
  assume ne: "df \<noteq> []"
  then have "map Time_sec df \<noteq> []" by simp
  from idxmin_first_minimum [OF this] obtain k where
    k: "idxmin (map Time_sec df) = Some k" "k < length df"
       "\<forall>j < length df. map Time_sec df ! k \<le> map Time_sec df ! j"
       "\<forall>j < k. map Time_sec df ! k < map Time_sec df ! j"
    by auto
  have "snd (snd (summary_stats df)) = Some (df ! k)"
    using ne k(1,2) by (simp add: summary_stats_def fastest_row_def)
  moreover have "\<forall>j < length df. Time_sec (df ! k) \<le> Time_sec (df ! j)"
    using k(2,3) by simp
  moreover have "\<forall>j < k. Time_sec (df ! k) < Time_sec (df ! j)"
    using k(2,4) by simp
  ultimately show "\<exists>k < length df. snd (snd (summary_stats df)) = Some (df ! k) \<and>
         (\<forall>j < length df. Time_sec (df ! k) \<le> Time_sec (df ! j)) \<and>
         (\<forall>j < k. Time_sec (df ! k) < Time_sec (df ! j))"
    using k(2) by blast
qed

theorem summary_counts_and_first_fastest_witness:
  "sample_rows \<noteq> [] \<and>
   fst (summary_stats sample_rows) = 4 \<and>
   fst (snd (summary_stats sample_rows)) = 3 \<and>
   (\<exists>k < length sample_rows. snd (snd (summary_stats sample_rows)) = Some (sample_rows ! k) \<and>
         (\<forall>j < length sample_rows. Time_sec (sample_rows ! k) \<le> Time_sec (sample_rows ! j)) \<and>
         (\<forall>j < k. Time_sec (sample_rows ! k) < Time_sec (sample_rows ! j)))"
proof -
  have ne: "sample_rows \<noteq> []" by (simp add: sample_rows_def)
  have n: "length sample_rows = 4" by (simp add: sample_rows_def)
  have b: "card (Brand ` set sample_rows) = 3" by code_simp
  from summary_counts_and_first_fastest [of sample_rows] ne n b show ?thesis by simp
qed

text \<open>On a tie the first of the fastest rows is the one reported.\<close>

lemma summary_tie_example:
  "summary_stats tie_rows = (2, 2, Some (tie_rows ! 0)) \<and>
   Time_sec (tie_rows ! 0) = Time_sec (tie_rows ! 1)"
  by code_simp

section \<open>Properties of the brand order\<close>

lemma group_min_Min:
  assumes "b \<in> Brand ` set df"
  shows "group_min df b = Min (Time_sec ` {row \<in> set df. Brand row = b})"
proof -
  let ?ts = "map Time_sec (filter (\<lambda>row. Brand row = b) df)"
  from assms have "?ts \<noteq> []" by (auto simp: filter_empty_conv)
  then obtain t rest where ts: "?ts = t # rest" by (cases ?ts) auto
  have "group_min df b = fold min rest t" by (simp add: group_min_def ts)
  also have "\<dots> = Min (set (t # rest))" by (simp only: Min.set_eq_fold)
  also have "set (t # rest) = Time_sec ` {row \<in> set df. Brand row = b}"
    unfolding ts [symmetric] by auto
  finally show ?thesis .
qed

lemma groupby_min_keys:
  "map fst (groupby_min df) = sort (remdups (map Brand df))"
  by (simp add: groupby_min_def comp_def)

lemma groupby_min_values:
  "p \<in> set (groupby_min df) \<Longrightarrow> snd p = group_min df (fst p)"
  by (auto simp: groupby_min_def)

lemma groupby_min_set_only:
  assumes "set df' = set df"
  shows "groupby_min df' = groupby_min df"
proof -
  have keys: "sort (remdups (map Brand d)) = sorted_list_of_set (Brand ` set d)" for d :: "vehicle list"
    using sorted_list_of_set_sort_remdups [of "map Brand d"] by simp
  have "groupby_min d =
      map (\<lambda>b. (b, Min (Time_sec ` {row \<in> set d. Brand row = b}))) (sorted_list_of_set (Brand ` set d))"
    for d :: "vehicle list"
    unfolding groupby_min_def keys by (rule map_cong) (simp_all add: group_min_Min)
  then show ?thesis by (simp only: assms)
qed

text \<open>The sort has a result on every series, so \<open>brand_fastest_time\<close> has a value on every
  frame.\<close>

lemma sort_values_total: "sort_values series (sort_key snd series)"
  by (simp add: sort_values_def)

lemma brand_fastest_time_total: "brand_fastest_time df (sort_key snd (groupby_min df))"
  by (simp add: brand_fastest_time_def sort_values_total)

lemma fold_update_other:
  "b \<notin> set xs \<Longrightarrow> fold (\<lambda>(i, brand) m. m(brand \<mapsto> i)) (enumerate n xs) m0 b = m0 b"
  by (induction xs arbitrary: n m0) auto

lemma fold_update_position:
  assumes "distinct xs" "i < length xs"
  shows "fold (\<lambda>(i, brand) m. m(brand \<mapsto> i)) (enumerate n xs) m0 (xs ! i) = Some (n + i)"
  using assms
proof (induction xs arbitrary: n m0 i)
  case Nil
  then show ?case by simp
next
  case (Cons x xs)
  show ?case
  proof (cases i)
    case 0
    from Cons.prems have "x \<notin> set xs" by simp
    then have "fold (\<lambda>(i, brand) m. m(brand \<mapsto> i)) (enumerate (Suc n) xs) (m0(x \<mapsto> n)) x
        = (m0(x \<mapsto> n)) x"
      by (rule fold_update_other)
    also have "\<dots> = Some n" by simp
    finally show ?thesis using 0 by (simp del: fun_upd_apply)
  next
    case (Suc k)
    with Cons.prems have "fold (\<lambda>(i, brand) m. m(brand \<mapsto> i)) (enumerate (Suc n) xs) (m0(x \<mapsto> n)) (xs ! k)
        = Some (Suc n + k)"
      by (intro Cons.IH) auto
    with Suc show ?thesis by (simp del: fun_upd_apply)
  qed
qed

lemma brand_order_simple_keys:
  assumes "df \<noteq> []" "brand_fastest_time df series"
  shows "set (brand_order_simple series df) = Brand ` set df"
    and "distinct (brand_order_simple series df)"
    and "length (brand_order_simple series df) = card (Brand ` set df)"
proof -
  have o: "brand_order_simple series df = map fst series"
    using assms(1) by (simp add: brand_order_simple_def)
  from assms(2) have "mset series = mset (groupby_min df)"
    by (simp add: brand_fastest_time_def sort_values_def)
  then have "mset (map fst series) = mset (map fst (groupby_min df))" by simp
  then have m: "mset (map fst series) = mset (sort (remdups (map Brand df)))"
    by (simp only: groupby_min_keys)
  from mset_eq_setD [OF m] show s: "set (brand_order_simple series df) = Brand ` set df"
    by (simp add: o)
  have "distinct (map fst series) \<longleftrightarrow> distinct (sort (remdups (map Brand df)))"
    by (rule mset_eq_imp_distinct_iff [OF m])
  then show d: "distinct (brand_order_simple series df)" by (simp add: o)
  show "length (brand_order_simple series df) = card (Brand ` set df)"
    using distinct_card [OF d] s by simp
qed

lemma brand_order_simple_sorted:
  assumes "df \<noteq> []" "brand_fastest_time df series"
  shows "sorted (map (fastest_time_of_brand df) (brand_order_simple series df))"
proof -
  have o: "brand_order_simple series df = map fst series"
    using assms(1) by (simp add: brand_order_simple_def)
  from assms(2) have m: "mset series = mset (groupby_min df)" and s: "sorted (map snd series)"
    by (simp_all add: brand_fastest_time_def sort_values_def)
  have "snd p = fastest_time_of_brand df (fst p)" if "p \<in> set series" for p
  proof -
    from that mset_eq_setD [OF m] have p: "p \<in> set (groupby_min df)" by simp
    then have "fst p \<in> set (map fst (groupby_min df))" by simp
    then have "fst p \<in> Brand ` set df" by (simp add: groupby_min_keys)
    then show ?thesis
      using groupby_min_values [OF p] by (simp add: group_min_Min fastest_time_of_brand_def)
  qed
  then have "map snd series = map (fastest_time_of_brand df) (map fst series)" by simp
  with s show ?thesis by (simp only: o)
qed

lemma store_order_brands_keys:
  "set (store_order_brands df) = Brand ` set df" "distinct (store_order_brands df)"
  by (simp_all add: store_order_brands_def)

lemma brand_order_simple_unique:
  assumes "df \<noteq> []" "brand_fastest_time df series"
    and "distinct (map (fastest_time_of_brand df) (remdups (map Brand df)))"
  shows "brand_order_simple series df = spec_brand_order df"
proof -
  let ?f = "fastest_time_of_brand df"
  let ?xs = "brand_order_simple series df"
  let ?ys = "spec_brand_order df"
  note keys = brand_order_simple_keys [OF assms(1,2)]
  from assms(3) have inj: "inj_on ?f (Brand ` set df)"
    using distinct_map [of ?f "remdups (map Brand df)"] by simp
  have ys: "set ?ys = Brand ` set df" "distinct ?ys"
    by (simp_all add: spec_brand_order_def store_order_brands_keys)
  have "map ?f ?xs = map ?f ?ys"
  proof (rule sorted_distinct_set_unique)
    show "sorted (map ?f ?xs)" by (rule brand_order_simple_sorted [OF assms(1,2)])
    show "sorted (map ?f ?ys)" by (simp add: spec_brand_order_def)
    show "distinct (map ?f ?xs)" using keys inj by (simp add: distinct_map)
    show "distinct (map ?f ?ys)" using ys inj by (simp add: distinct_map)
    show "set (map ?f ?xs) = set (map ?f ?ys)" using keys(1) ys(1) by simp
  qed
  moreover have "inj_on ?f (set ?xs \<union> set ?ys)" using inj keys(1) ys(1) by simp
  ultimately show ?thesis by (simp only: inj_on_map_eq_map)
qed

text \<open>
  Claim C2, as the code has it. On a non-empty frame, whatever order the sort leaves among
  equal values, the brand order lists every brand of the frame once, ascending by the
  least \<open>Time_sec\<close> of the brand's rows, and every brand, hence every row, gets as x-slot
  the 0-based position of its brand in that order. Where no two brands have the same
  least time this is the order of the specification. Where some have, their order is the
  sort's, and the order of the rows has no part in it: the same rows in any other order
  give the sort the same series, so every value of \<open>brand_fastest_time\<close> on the one frame
  is one on the other.
\<close>

theorem brand_order_by_fastest_time:
  assumes "df \<noteq> []" and "brand_fastest_time df series"
  shows "distinct (brand_order_simple series df) \<and>
         set (brand_order_simple series df) = Brand ` set df \<and>
         sorted (map (fastest_time_of_brand df) (brand_order_simple series df)) \<and>
         (\<forall>i < length (brand_order_simple series df).
            brand_position_simple series df (brand_order_simple series df ! i) = Some i) \<and>
         (\<forall>row \<in> set df. \<exists>i < length (brand_order_simple series df).
            brand_order_simple series df ! i = Brand row \<and> Brand_X_simple series df row = Some i) \<and>
         (distinct (map (fastest_time_of_brand df) (remdups (map Brand df))) \<longrightarrow>
            brand_order_simple series df = spec_brand_order df) \<and>
         (\<forall>df'. mset df' = mset df \<longrightarrow> brand_fastest_time df' series)"
proof -
  let ?order = "brand_order_simple series df"
  note keys = brand_order_simple_keys [OF assms]
  have pos: "brand_position_simple series df (?order ! i) = Some i" if "i < length ?order" for i
    using fold_update_position [OF keys(2) that, of 0 Map.empty]
    by (simp add: brand_position_simple_def)
  note srt = brand_order_simple_sorted [OF assms]
  have rows: "\<exists>i < length ?order. ?order ! i = Brand row \<and> Brand_X_simple series df row = Some i"
    if "row \<in> set df" for row
  proof -
    from that have "Brand row \<in> set ?order" by (simp add: keys(1))
    then obtain i where i: "i < length ?order" "?order ! i = Brand row"
      by (auto simp: in_set_conv_nth)
    with pos [OF i(1)] have "Brand_X_simple series df row = Some i"
      by (simp add: Brand_X_simple_def)
    with i show ?thesis by blast
  qed
  have uniq: "?order = spec_brand_order df"
    if "distinct (map (fastest_time_of_brand df) (remdups (map Brand df)))"
    by (rule brand_order_simple_unique [OF assms that])
  have perm: "brand_fastest_time df' series" if "mset df' = mset df" for df'
  proof -
    from that have "set df' = set df" by (rule mset_eq_setD)
    then have "groupby_min df' = groupby_min df" by (rule groupby_min_set_only)
    with assms(2) show ?thesis by (simp add: brand_fastest_time_def)
  qed
  from keys(1,2) pos srt rows uniq perm show ?thesis by blast
qed

lemma groupby_min_abc_rows:
  "groupby_min abc_rows = [(''BrandA'', 61), (''BrandB'', 58.2), (''BrandC'', 58.2)]"
  by code_simp

theorem brand_order_by_fastest_time_witness:
  "abc_rows \<noteq> [] \<and>
   brand_fastest_time abc_rows [(''BrandB'', 58.2), (''BrandC'', 58.2), (''BrandA'', 61)] \<and>
   brand_fastest_time abc_rows [(''BrandC'', 58.2), (''BrandB'', 58.2), (''BrandA'', 61)] \<and>
   brand_order_simple [(''BrandC'', 58.2), (''BrandB'', 58.2), (''BrandA'', 61)] abc_rows =
     [''BrandC'', ''BrandB'', ''BrandA''] \<and>
   brand_position_simple [(''BrandC'', 58.2), (''BrandB'', 58.2), (''BrandA'', 61)] abc_rows ''BrandC'' = Some 0 \<and>
   brand_position_simple [(''BrandC'', 58.2), (''BrandB'', 58.2), (''BrandA'', 61)] abc_rows ''BrandB'' = Some 1 \<and>
   brand_position_simple [(''BrandC'', 58.2), (''BrandB'', 58.2), (''BrandA'', 61)] abc_rows ''BrandA'' = Some 2"
proof -
  let ?s = "[(''BrandC'', 58.2 :: rat), (''BrandB'', 58.2), (''BrandA'', 61)]"
  have ne: "abc_rows \<noteq> []" by (simp add: abc_rows_def)
  have s1: "brand_fastest_time abc_rows [(''BrandB'', 58.2), (''BrandC'', 58.2), (''BrandA'', 61)]"
    by (simp add: brand_fastest_time_def sort_values_def groupby_min_abc_rows)
  have s2: "brand_fastest_time abc_rows ?s"
    by (simp add: brand_fastest_time_def sort_values_def groupby_min_abc_rows)
  have order: "brand_order_simple ?s abc_rows = [''BrandC'', ''BrandB'', ''BrandA'']"
    using ne by (simp add: brand_order_simple_def)
  from brand_order_by_fastest_time [OF ne s2]
  have pos: "brand_position_simple ?s abc_rows (brand_order_simple ?s abc_rows ! i) = Some i"
    if "i < length (brand_order_simple ?s abc_rows)" for i
    using that by blast
  from pos [of 0] pos [of 1] pos [of 2] ne s1 s2 order show ?thesis by simp
qed

text \<open>
  Claim C2 as the specification words it (ties in the order of the rows) fails. \<open>Zeta\<close>
  has the first row of \<open>tie_rows\<close> and the same least time as \<open>Alpha\<close>, so the claim asks for
  \<open>Zeta\<close> first. The series that the sort receives has \<open>Alpha\<close> first, and the order with
  \<open>Alpha\<close> first is one that the code can give. The sort receives the same series from the
  rows in reverse order, for which the claim asks for \<open>Alpha\<close> first: whatever a sort does
  with this series, the claim fails on one of the two frames.
\<close>

theorem brand_order_store_ties_counterexample:
  "map Brand tie_rows = [''Zeta'', ''Alpha''] \<and>
   spec_brand_order tie_rows = [''Zeta'', ''Alpha''] \<and>
   groupby_min tie_rows = [(''Alpha'', 58.2), (''Zeta'', 58.2)] \<and>
   brand_fastest_time tie_rows [(''Alpha'', 58.2), (''Zeta'', 58.2)] \<and>
   brand_order_simple [(''Alpha'', 58.2), (''Zeta'', 58.2)] tie_rows = [''Alpha'', ''Zeta''] \<and>
   groupby_min (rev tie_rows) = groupby_min tie_rows \<and>
   spec_brand_order (rev tie_rows) = [''Alpha'', ''Zeta'']"
proof -
  have g: "groupby_min tie_rows = [(''Alpha'', 58.2), (''Zeta'', 58.2)]" by code_simp
  have r: "groupby_min (rev tie_rows) = groupby_min tie_rows"
    by (rule groupby_min_set_only) simp
  have b: "brand_fastest_time tie_rows [(''Alpha'', 58.2), (''Zeta'', 58.2)]"
    by (simp add: brand_fastest_time_def sort_values_def g)
  have ne: "tie_rows \<noteq> []" by (simp add: tie_rows_def)
  have o: "brand_order_simple [(''Alpha'', 58.2), (''Zeta'', 58.2)] tie_rows = [''Alpha'', ''Zeta'']"
    using ne by (simp add: brand_order_simple_def)
  have m: "map Brand tie_rows = [''Zeta'', ''Alpha'']" by (simp add: tie_rows_def)
  have s: "spec_brand_order tie_rows = [''Zeta'', ''Alpha'']"
    "spec_brand_order (rev tie_rows) = [''Alpha'', ''Zeta'']" by code_simp+
  from m s g b o r show ?thesis by simp
qed
section \<open>Y-axis ticks and their labels\<close>

lemma round_half_even_mono:
  assumes "p \<le> q"
  shows "round_half_even p \<le> round_half_even q"
proof (cases "\<lfloor>p\<rfloor> = \<lfloor>q\<rfloor>")
  case True
  then have "p - of_int \<lfloor>p\<rfloor> \<le> q - of_int \<lfloor>q\<rfloor>" using assms by simp
  with True show ?thesis by (auto simp: round_half_even_def Let_def)
next
  case False
  moreover have "\<lfloor>p\<rfloor> \<le> \<lfloor>q\<rfloor>" using assms by (rule floor_mono)
  ultimately have "\<lfloor>p\<rfloor> + 1 \<le> \<lfloor>q\<rfloor>" by simp
  moreover have "round_half_even p \<le> \<lfloor>p\<rfloor> + 1" by (auto simp: round_half_even_def Let_def)
  moreover have "\<lfloor>q\<rfloor> \<le> round_half_even q" by (auto simp: round_half_even_def Let_def)
  ultimately show ?thesis by linarith
qed

lemma floor_log2_mono:
  assumes "0 < p" "p \<le> q"
  shows "floor_log2 p \<le> floor_log2 q"
proof -
  from floor_log2_bounds [OF assms(1)] assms(2) have "2 powi floor_log2 p \<le> q" by simp
  then show ?thesis by (rule floor_log2_ge)
qed

lemma fl_le_pow:
  assumes "0 < q"
  shows "fl q \<le> 2 powi (ulp_exponent q + 53)"
proof -
  let ?e = "ulp_exponent q"
  have e: "floor_log2 q - 52 \<le> ?e" using assms by (simp add: ulp_exponent_def)
  from floor_log2_bounds [OF assms] have "q < 2 powi (floor_log2 q + 1)" by simp
  also have "\<dots> \<le> 2 powi (?e + 53)" using e by (intro power_int_increasing) simp_all
  also have "\<dots> = 2 powi ?e * 2 ^ 53" by (simp add: power_int_add)
  finally have "q / 2 powi ?e < 2 ^ 53" by (simp add: pos_divide_less_eq mult.commute)
  then have "q / 2 powi ?e \<le> of_int (2 ^ 53)" by simp
  then have "round_half_even (q / 2 powi ?e) \<le> 2 ^ 53" by (rule round_half_even_le_int)
  then have "(of_int (round_half_even (q / 2 powi ?e)) :: rat) \<le> of_int (2 ^ 53)"
    by (simp only: of_int_le_iff)
  then have "(of_int (round_half_even (q / 2 powi ?e)) :: rat) * 2 powi ?e \<le> of_int (2 ^ 53) * 2 powi ?e"
    by (intro mult_right_mono) simp_all
  also have "\<dots> = 2 powi (?e + 53)" by (simp add: power_int_add)
  finally show ?thesis using assms by (simp add: fl_def)
qed

lemma fl_mono:
  assumes "0 \<le> p" "p \<le> q"
  shows "fl p \<le> fl q"
proof (cases "p = 0")
  case True
  from assms have "0 \<le> q" by simp
  then have "0 \<le> fl q" by (rule fl_nonneg)
  with True show ?thesis by (simp add: fl_def)
next
  case False
  with assms have p: "0 < p" and q: "0 < q" by simp_all
  have lg: "floor_log2 p \<le> floor_log2 q" using p assms(2) by (rule floor_log2_mono)
  then have ee: "ulp_exponent p \<le> ulp_exponent q" using p q by (simp add: ulp_exponent_def)
  show ?thesis
  proof (cases "ulp_exponent p = ulp_exponent q")
    case True
    let ?s = "(2::rat) powi ulp_exponent q"
    have "p / ?s \<le> q / ?s" using assms(2) by (simp add: divide_right_mono)
    then have "round_half_even (p / ?s) \<le> round_half_even (q / ?s)" by (rule round_half_even_mono)
    then have "(of_int (round_half_even (p / ?s)) :: rat) \<le> of_int (round_half_even (q / ?s))"
      by (simp only: of_int_le_iff)
    then have "of_int (round_half_even (p / ?s)) * ?s \<le> of_int (round_half_even (q / ?s)) * ?s"
      by (intro mult_right_mono) simp_all
    then show ?thesis using p q True by (simp add: fl_def)
  next
    case False
    with ee have lt: "ulp_exponent p < ulp_exponent q" by simp
    then have "- 1074 < ulp_exponent q" using p by (simp add: ulp_exponent_def)
    then have nq: "ulp_exponent q = floor_log2 q - 52" "- 1022 \<le> floor_log2 q"
      using q by (simp_all add: ulp_exponent_def)
    have "fl p \<le> 2 powi (ulp_exponent p + 53)" using p by (rule fl_le_pow)
    also have "\<dots> \<le> 2 powi floor_log2 q"
      using lt nq(1) by (intro power_int_increasing) simp_all
    also have "\<dots> \<le> fl q" using q nq(2) by (rule fl_ge_pow)
    finally show ?thesis .
  qed
qed

lemma fl_form: "\<exists>k j. fl q = of_int k * 2 powi j \<and> \<bar>k\<bar> < 2 ^ 53 \<and> - 1074 \<le> j"
proof (cases "q = 0")
  case True
  have "fl q = of_int 0 * 2 powi 0 \<and> \<bar>0::int\<bar> < 2 ^ 53 \<and> - 1074 \<le> (0::int)"
    using True by (simp add: fl_def)
  then show ?thesis by blast
next
  case False
  let ?e = "ulp_exponent q"
  let ?K = "round_half_even (q / 2 powi ?e)"
  have e: "- 1074 \<le> ?e" "floor_log2 \<bar>q\<bar> - 52 \<le> ?e" by (simp_all add: ulp_exponent_def)
  have flq: "fl q = of_int ?K * 2 powi ?e" using False by (simp add: fl_def)
  have pos: "0 < \<bar>q\<bar>" using False by simp
  from floor_log2_bounds [OF pos] have "\<bar>q\<bar> < 2 powi (floor_log2 \<bar>q\<bar> + 1)" by simp
  also have "\<dots> \<le> 2 powi (?e + 53)"
    using e(2) by (intro power_int_increasing) simp_all
  also have "\<dots> = 2 powi ?e * 2 ^ 53"
    by (simp add: power_int_add)
  finally have "\<bar>q\<bar> / 2 powi ?e < 2 ^ 53"
    by (simp add: pos_divide_less_eq mult.commute)
  then have "\<bar>q / 2 powi ?e\<bar> \<le> of_int (2 ^ 53)" by (simp add: abs_divide)
  then have K: "\<bar>?K\<bar> \<le> 2 ^ 53" by (rule round_half_even_abs_le)
  show ?thesis
  proof (cases "\<bar>?K\<bar> < 2 ^ 53")
    case True
    with flq e(1) show ?thesis by blast
  next
    case False
    with K have "\<bar>?K\<bar> = 2 ^ 53" by simp
    then have "?K = 2 ^ 53 \<or> ?K = - (2 ^ 53)" by (simp add: abs_eq_iff')
    then have "fl q = of_int (sgn ?K) * 2 powi (?e + 53)"
      by (auto simp: flq power_int_add)
    moreover have "\<bar>sgn ?K\<bar> < 2 ^ 53" by (simp add: abs_sgn_eq)
    moreover have "- 1074 \<le> ?e + 53" using e(1) by simp
    ultimately show ?thesis by blast
  qed
qed

lemma fl_half_int:
  assumes "\<bar>c\<bar> < 2 ^ 53"
  shows "fl (of_int c / 2) = of_int c / 2"
proof -
  have "(of_int c / 2 :: rat) = of_int c * 2 powi (- 1)" by (simp add: power_int_minus)
  then show ?thesis using assms by (intro fl_exact [of _ c "- 1"]) simp_all
qed

lemma fl_double:
  assumes "fl q = q"
  shows "fl (2 * q) = 2 * q"
proof -
  from fl_form [of q] assms obtain k j where
    kj: "q = of_int k * 2 powi j" "\<bar>k\<bar> < 2 ^ 53" "- 1074 \<le> j" by auto
  have "2 * q = of_int k * 2 powi (j + 1)" by (simp add: kj(1) power_int_add)
  then show ?thesis using kj(2,3) by (intro fl_exact [of _ k "j + 1"]) simp_all
qed
lemma fl_sub_half_int:
  assumes "fl s = s" "0 \<le> c" "of_int c / 2 \<le> s" "s < 2 ^ 50"
  shows "fl (s - of_int c / 2) = s - of_int c / 2"
proof -
  from fl_form [of s] assms(1) obtain k j where
    kj: "s = of_int k * 2 powi j" "\<bar>k\<bar> < 2 ^ 53" "- 1074 \<le> j" by auto
  show ?thesis
  proof (cases "0 \<le> j")
    case True
    define S where "S = k * 2 ^ nat j"
    have s: "s = of_int S" using True by (simp add: kj(1) S_def power_int_def)
    have eq: "s - of_int c / 2 = of_int (2 * S - c) / 2" by (simp add: s field_simps)
    have "\<bar>2 * S - c\<bar> < 2 ^ 53"
    proof -
      have "(of_int c :: rat) \<le> 2 * of_int S" using assms(3) by (simp add: s)
      then have "(of_int c :: rat) \<le> of_int (2 * S)" by simp
      then have a: "c \<le> 2 * S" by (simp only: of_int_le_iff)
      have "(of_int S :: rat) < of_int (2 ^ 50)" using assms(4) by (simp add: s)
      then have "S < 2 ^ 50" by (simp only: of_int_less_iff)
      with a assms(2) show ?thesis by simp
    qed
    then have "fl (of_int (2 * S - c) / 2) = (of_int (2 * S - c) / 2 :: rat)"
      by (rule fl_half_int)
    then show ?thesis by (simp only: eq)
  next
    case False
    define n where "n = nat (- 1 - j)"
    define K where "K = k - c * 2 ^ n"
    have p: "(2::rat) powi j > 0" by simp
    have "(2::rat) powi (- 1) = 2 powi j * 2 powi (- 1 - j)"
      by (simp flip: power_int_add)
    also have "(2::rat) powi (- 1 - j) = 2 ^ n" using False by (simp add: n_def power_int_def)
    finally have h: "(1 / 2 :: rat) = 2 powi j * 2 ^ n" by (simp add: power_int_minus)
    have c2: "(of_int c / 2 :: rat) = of_int (c * 2 ^ n) * 2 powi j"
    proof -
      have "(of_int c / 2 :: rat) = of_int c * (1 / 2)" by simp
      also have "\<dots> = of_int c * (2 powi j * 2 ^ n)" by (simp only: h)
      finally show ?thesis by (simp add: mult_ac)
    qed
    have d: "s - of_int c / 2 = of_int K * 2 powi j"
      by (simp add: kj(1) c2 K_def algebra_simps)
    have "0 \<le> of_int K * (2::rat) powi j" using assms(3) d by simp
    then have "(0::rat) \<le> of_int K" using p by (simp add: zero_le_mult_iff)
    then have K0: "0 \<le> K" by simp
    have "0 \<le> c * 2 ^ n" using assms(2) by simp
    then have "K \<le> k" by (simp add: K_def)
    with K0 kj(2) have "\<bar>K\<bar> < 2 ^ 53" by simp
    then show ?thesis using d kj(3) by (intro fl_exact [of _ K j])
  qed
qed

lemma arange_half_grid:
  assumes "0 \<le> c" "fl stop = stop" "of_int c / 2 \<le> stop" "stop < 2 ^ 45"
  shows "arange (of_int c / 2) stop (1 / 2) =
           map (\<lambda>i. of_int c / 2 + of_nat i / 2) [0..<nat \<lceil>2 * (stop - of_int c / 2)\<rceil>]"
proof -
  define start :: rat where "start = of_int c / 2"
  define D where "D = stop - start"
  have s50: "stop < 2 ^ 50" using assms(4) by simp
  have fD: "fl D = D"
    unfolding D_def start_def using assms(2,1,3) s50 by (rule fl_sub_half_int)
  have D0: "0 \<le> D" using assms(3) by (simp add: D_def start_def)
  have st0: "0 \<le> start" using assms(1) by (simp add: start_def)
  have DS: "D \<le> stop" using st0 by (simp add: D_def)
  have "(of_int c :: rat) < of_int (2 ^ 46)"
    using assms(3,4) by simp
  then have c46: "c < 2 ^ 46" by (simp only: of_int_less_iff)
  have "fl D / (1 / 2) = 2 * D" by (simp add: fD)
  then have len: "fl (fl D / (1 / 2)) = 2 * D"
    using fl_double [OF fD] by (simp only:)
  have e1: "of_int (c + 1) / 2 = start + 1 / 2" by (simp add: start_def field_simps)
  have "fl (of_int (c + 1) / 2) = (of_int (c + 1) / 2 :: rat)"
    using assms(1) c46 by (intro fl_half_int) simp
  then have second: "fl (start + 1 / 2) = start + 1 / 2" by (simp only: e1)
  have "fl (of_int 1 / 2) = (of_int 1 / 2 :: rat)" by (intro fl_half_int) simp
  then have half: "fl (1 / 2) = (1 / 2 :: rat)" by simp
  have delta: "fl (start + 1 / 2 - start) = 1 / 2" by (simp add: half)
  have val: "(if i = 0 then start else if i = 1 then start + 1 / 2
              else fl (start + fl (fl (of_nat i) * (1 / 2)))) = start + of_nat i / 2"
    if "i < nat \<lceil>2 * D\<rceil>" for i
  proof -
    from that have "int i < \<lceil>2 * D\<rceil>" by simp
    then have "of_int (int i) < 2 * D" by (simp only: less_ceiling_iff)
    then have "(of_nat i :: rat) < 2 * stop" using DS by simp
    also have "\<dots> < of_nat (2 ^ 46)" using assms(4) by simp
    finally have i46: "i < 2 ^ 46" by (simp only: of_nat_less_iff)
    then have a: "fl (of_nat i) = (of_nat i :: rat)" by (intro fl_of_nat) simp
    have "fl (of_int (int i) / 2) = (of_int (int i) / 2 :: rat)"
      using i46 by (intro fl_half_int) simp
    then have b: "fl (of_nat i / 2) = (of_nat i / 2 :: rat)" by simp
    have e2: "(of_int (c + int i) / 2 :: rat) = start + of_nat i / 2"
      by (simp add: start_def field_simps)
    have "fl (of_int (c + int i) / 2) = (of_int (c + int i) / 2 :: rat)"
      using i46 c46 assms(1) by (intro fl_half_int) simp
    then have e: "fl (start + of_nat i / 2) = start + of_nat i / 2" by (simp only: e2)
    show ?thesis by (simp add: a b e)
  qed
  have "arange start stop (1 / 2) =
          map (\<lambda>i. if i = 0 then start else if i = 1 then start + 1 / 2
                    else fl (start + fl (fl (of_nat i) * (1 / 2)))) [0..<nat \<lceil>2 * D\<rceil>]"
    unfolding arange_def Let_def D_def [symmetric] len second delta by (rule refl)
  also have "\<dots> = map (\<lambda>i. start + of_nat i / 2) [0..<nat \<lceil>2 * D\<rceil>]"
    by (rule map_cong) (simp_all add: val)
  finally show ?thesis by (simp only: start_def D_def)
qed
lemma float_divmod_one:
  assumes "0 \<le> x" "x < 2 ^ 53"
  shows "float_divmod x 1 = (of_int \<lfloor>x\<rfloor>, x - of_int \<lfloor>x\<rfloor>)"
proof -
  define k where "k = \<lfloor>x\<rfloor>"
  have k0: "0 \<le> k" using assms(1) by (simp add: k_def)
  have kx: "of_int k \<le> x" by (simp add: k_def)
  have m0: "py_fmod x 1 = x - of_int k"
    using assms(1) by (simp add: py_fmod_def k_def)
  have mnn: "\<not> py_fmod x 1 < 0" using kx unfolding m0 by linarith
  have "(of_int k :: rat) < of_int (2 ^ 53)" using kx assms(2) by simp
  then have "k < 2 ^ 53" by (simp only: of_int_less_iff)
  then have bk: "\<bar>k\<bar> < 2 ^ 53" using k0 by linarith
  have "x - py_fmod x 1 = of_int k" unfolding m0 by simp
  then have "fl (x - py_fmod x 1) = of_int k" using fl_of_int [OF bk] by simp
  then have "fl (x - py_fmod x 1) / 1 = of_int k" by simp
  then have d0: "fl (fl (x - py_fmod x 1) / 1) = of_int k" using fl_of_int [OF bk] by simp
  have "float_divmod x 1 = (of_int k, x - of_int k)"
    unfolding float_divmod_def Let_def d0 using mnn by (simp add: m0)
  then show ?thesis by (simp add: k_def)
qed

lemma fl_hundredth: "0 < fl (1 / 100)" "fl (1 / 100) < 1 / 2"
proof -
  have "fl (1 / 100) = (5764607523034235 / 576460752303423488 :: rat)" by code_simp
  then show "0 < fl (1 / 100)" "fl (1 / 100) < 1 / 2" by simp_all
qed

lemma half_int_frac:
  fixes k :: int
  shows "(of_int k / 2 - of_int \<lfloor>of_int k / 2 :: rat\<rfloor> < fl (1 / 100)) =
         (of_int k / 2 - of_int \<lfloor>of_int k / 2 :: rat\<rfloor> < (1 / 100 :: rat))"
proof (cases "even k")
  case True
  then obtain j where "k = 2 * j" by (elim evenE)
  then have "(of_int k / 2 :: rat) = of_int j" by simp
  then show ?thesis using fl_hundredth(1) by simp
next
  case False
  then obtain j where "k = 2 * j + 1" by (elim oddE)
  then have e: "(of_int k / 2 :: rat) = of_int j + 1 / 2" by (simp add: field_simps)
  have "\<lfloor>of_int j + 1 / 2 :: rat\<rfloor> = j" by (rule floor_unique) simp_all
  then have "(of_int k / 2 - of_int \<lfloor>of_int k / 2 :: rat\<rfloor> :: rat) = 1 / 2" by (simp add: e)
  then show ?thesis using fl_hundredth(2) by simp
qed

lemma tick_values_grid:
  assumes "fl m = m" "fl M = M" "0 \<le> m" "m \<le> M" "M < 2 ^ 40"
  shows "tick_values m M =
           sort (remdups (m # map (\<lambda>i. of_int \<lceil>2 * m\<rceil> / 2 + of_nat i / 2)
             [0..<nat \<lceil>2 * (fl (M + 1 / 2) - of_int \<lceil>2 * m\<rceil> / 2)\<rceil>]))"
    and "of_int \<lceil>2 * m\<rceil> / 2 \<le> fl (M + 1 / 2)"
    and "fl (M + 1 / 2) \<le> 2 ^ 41"
proof -
  define c where "c = \<lceil>2 * m\<rceil>"
  define stop where "stop = fl (M + 1 / 2)"
  have c0: "0 \<le> c" using assms(3) by (simp add: c_def)
  have "2 * m \<le> 2 * M" using assms(4) by simp
  also have "\<dots> < of_int (2 ^ 41)" using assms(5) by simp
  finally have "2 * m \<le> of_int (2 ^ 41)" by simp
  then have "c \<le> 2 ^ 41" unfolding c_def by (simp only: ceiling_le_iff)
  then have cb: "\<bar>c\<bar> < 2 ^ 53" using c0 by simp
  have st: "fl (of_int c / 2) = (of_int c / 2 :: rat)" using cb by (rule fl_half_int)
  have "m / tick_interval = 2 * m" by (simp add: tick_interval_def)
  then have a: "fl (m / tick_interval) = 2 * m" using fl_double [OF assms(1)] by (simp only:)
  have "of_int c * tick_interval = (of_int c / 2 :: rat)" by (simp add: tick_interval_def)
  then have start: "fl (of_int \<lceil>fl (m / tick_interval)\<rceil> * tick_interval) = of_int c / 2"
    using st by (simp only: a c_def [symmetric])
  have "of_int c < 2 * m + 1" unfolding c_def by linarith
  then have "of_int c / 2 \<le> m + 1 / 2" by simp
  also have "\<dots> \<le> M + 1 / 2" using assms(4) by simp
  finally have le: "of_int c / 2 \<le> M + 1 / 2" .
  have "0 \<le> (of_int c / 2 :: rat)" using c0 by simp
  then have "fl (of_int c / 2) \<le> fl (M + 1 / 2)" using le by (rule fl_mono)
  then have "of_int c / 2 \<le> fl (M + 1 / 2)" by (simp only: st)
  then show s1: "of_int \<lceil>2 * m\<rceil> / 2 \<le> fl (M + 1 / 2)" by (simp only: c_def)
  have "0 \<le> M + 1 / 2" using assms(3,4) by simp
  moreover have "M + 1 / 2 \<le> 2 ^ 41" using assms(5) by simp
  ultimately have "fl (M + 1 / 2) \<le> fl (2 ^ 41)" by (rule fl_mono)
  moreover have "fl (of_int (2 ^ 41)) = (of_int (2 ^ 41) :: rat)" by (rule fl_of_int) simp
  ultimately show s2: "fl (M + 1 / 2) \<le> 2 ^ 41" by simp
  then have s3: "stop < 2 ^ 45" by (simp add: stop_def)
  have fs: "fl stop = stop" by (simp add: stop_def fl_idem)
  have g: "arange (of_int c / 2) stop (1 / 2) =
           map (\<lambda>i. of_int c / 2 + of_nat i / 2) [0..<nat \<lceil>2 * (stop - of_int c / 2)\<rceil>]"
    using c0 fs s1 s3 unfolding c_def [symmetric] stop_def [symmetric] by (rule arange_half_grid)
  show "tick_values m M =
           sort (remdups (m # map (\<lambda>i. of_int \<lceil>2 * m\<rceil> / 2 + of_nat i / 2)
             [0..<nat \<lceil>2 * (fl (M + 1 / 2) - of_int \<lceil>2 * m\<rceil> / 2)\<rceil>]))"
    unfolding tick_values_def Let_def start
    unfolding tick_interval_def stop_def [symmetric] g c_def [symmetric] by (rule refl)
qed

lemma tick_values_members:
  assumes "fl m = m" "fl M = M" "0 \<le> m" "m \<le> M" "M < 2 ^ 40"
  shows "t \<in> set (tick_values m M) \<longleftrightarrow>
           t = m \<or> ((\<exists>k::int. t = of_int k / 2) \<and> m \<le> t \<and> t < fl (M + 1 / 2))"
proof -
  define c where "c = \<lceil>2 * m\<rceil>"
  define stop where "stop = fl (M + 1 / 2)"
  define n where "n = nat \<lceil>2 * (stop - of_int c / 2)\<rceil>"
  have g: "tick_values m M =
      sort (remdups (m # map (\<lambda>i. of_int c / 2 + of_nat i / 2) [0..<n]))"
    unfolding c_def stop_def n_def by (rule tick_values_grid(1) [OF assms])
  have grid: "(\<exists>i < n. t = of_int c / 2 + of_nat i / 2) \<longleftrightarrow>
        (\<exists>k::int. t = of_int k / 2) \<and> m \<le> t \<and> t < stop"
  proof
    assume "\<exists>i < n. t = of_int c / 2 + of_nat i / 2"
    then obtain i where i: "i < n" "t = of_int c / 2 + of_nat i / 2" by blast
    from i(1) have "int i < \<lceil>2 * (stop - of_int c / 2)\<rceil>" by (simp add: n_def)
    then have "of_int (int i) < 2 * (stop - of_int c / 2)" by (simp only: less_ceiling_iff)
    then have lt: "t < stop" using i(2) by simp
    have "2 * m \<le> of_int c" unfolding c_def by linarith
    then have ge: "m \<le> t" using i(2) by simp
    have "t = of_int (c + int i) / 2" using i(2) by (simp add: field_simps)
    with lt ge show "(\<exists>k::int. t = of_int k / 2) \<and> m \<le> t \<and> t < stop" by blast
  next
    assume "(\<exists>k::int. t = of_int k / 2) \<and> m \<le> t \<and> t < stop"
    then obtain k :: int where k: "t = of_int k / 2" "m \<le> t" "t < stop" by blast
    from k(1,2) have "2 * m \<le> of_int k" by simp
    then have ck: "c \<le> k" unfolding c_def by (simp only: ceiling_le_iff)
    define i where "i = nat (k - c)"
    have ii: "int i = k - c" using ck by (simp add: i_def)
    have "(of_int (int i) :: rat) = of_int k - of_int c" by (simp only: ii of_int_diff)
    then have oi: "(of_nat i :: rat) = of_int k - of_int c" by simp
    then have t: "t = of_int c / 2 + of_nat i / 2" using k(1) by (simp add: field_simps)
    have "of_int (int i) < 2 * (stop - of_int c / 2)" using k(3) t by simp
    then have "int i < \<lceil>2 * (stop - of_int c / 2)\<rceil>" by (simp only: less_ceiling_iff)
    then have "i < n" by (simp add: n_def)
    with t show "\<exists>i < n. t = of_int c / 2 + of_nat i / 2" by blast
  qed
  have "t \<in> set (tick_values m M) \<longleftrightarrow> t = m \<or> (\<exists>i < n. t = of_int c / 2 + of_nat i / 2)"
    unfolding g by auto
  then show ?thesis unfolding grid stop_def by simp
qed
text \<open>
  Claim C6, as the code has it. Let the times of a non-empty frame be floats, not negative
  and below \<open>2^40\<close> seconds, with least time \<open>m\<close> and greatest time \<open>M\<close>. The tick
  values are ascending and without repetition; they are \<open>m\<close> and the multiples of 0.5
  that are at least \<open>m\<close> and below \<open>M + 0.5\<close> (the sum as the float addition rounds it), so
  the grid starts at the least multiple of 0.5 that is at least \<open>m\<close> and its last point
  can lie above \<open>M\<close>. A tick is labelled with its time formatted at three decimals when
  it is \<open>m\<close> or its fractional part is below 0.01, and with the empty string otherwise;
  formatting a tick never raises.
\<close>

theorem y_ticks_half_second_grid:
  assumes "df \<noteq> []"
    and "\<forall>row \<in> set df. fl (Time_sec row) = Time_sec row \<and> 0 \<le> Time_sec row \<and> Time_sec row < 2 ^ 40"
  shows "sorted (y_tick_values df) \<and> distinct (y_tick_values df) \<and>
         (\<forall>t. t \<in> set (y_tick_values df) \<longleftrightarrow>
               t = min_time df \<or>
               ((\<exists>k::int. t = of_int k / 2) \<and> min_time df \<le> t \<and> t < fl (max_time df + 1 / 2))) \<and>
         y_tick_labels df =
           map (\<lambda>t. if t = min_time df \<or> t - of_int \<lfloor>t\<rfloor> < 1 / 100
                     then seconds_to_duration (Finite t) 3 else Inr [])
             (y_tick_values df) \<and>
         (\<forall>t \<in> set (y_tick_values df). \<exists>s. seconds_to_duration (Finite t) 3 = Inr s)"
proof -
  define m where "m = min_time df"
  define M where "M = max_time df"
  have fin: "finite (set (map Time_sec df))" "set (map Time_sec df) \<noteq> {}" using assms(1) by simp_all
  have "m \<in> set (map Time_sec df)" unfolding m_def min_time_def by (rule Min_in [OF fin])
  then obtain r1 where r1: "r1 \<in> set df" "m = Time_sec r1" by auto
  have "M \<in> set (map Time_sec df)" unfolding M_def max_time_def by (rule Max_in [OF fin])
  then obtain r2 where r2: "r2 \<in> set df" "M = Time_sec r2" by auto
  have fm: "fl m = m" and m0: "0 \<le> m" using assms(2) r1 by auto
  have fM: "fl M = M" and Mb: "M < 2 ^ 40" using assms(2) r2 by auto
  have "Min (set (map Time_sec df)) \<le> Max (set (map Time_sec df))"
    using fin by (intro Min_le_iff [THEN iffD2] bexI [of _ "Max (set (map Time_sec df))"] Max_in) simp_all
  then have mM: "m \<le> M" by (simp add: m_def M_def min_time_def max_time_def)
  note mem = tick_values_members [OF fm fM m0 mM Mb]
  note grid = tick_values_grid [OF fm fM m0 mM Mb]
  have tv: "y_tick_values df = tick_values m M" by (simp add: y_tick_values_def m_def M_def)
  have sd: "sorted (tick_values m M)" "distinct (tick_values m M)"
    by (simp_all add: tick_values_def Let_def)
  have range: "0 \<le> t \<and> t < 2 ^ 53" if "t \<in> set (tick_values m M)" for t
  proof -
    from that mem [of t] have "t = m \<or> (m \<le> t \<and> t < fl (M + 1 / 2))" by blast
    moreover have "m < 2 ^ 53" using mM Mb by simp
    moreover have "fl (M + 1 / 2) < 2 ^ 53" using grid(3) by simp
    ultimately show ?thesis using m0 by auto
  qed
  have lab: "tick_label m t =
      (if t = m \<or> t - of_int \<lfloor>t\<rfloor> < 1 / 100 then seconds_to_duration (Finite t) 3 else Inr [])"
    if "t \<in> set (tick_values m M)" for t
  proof (cases "t = m")
    case True
    then show ?thesis by (simp add: tick_label_def)
  next
    case False
    with that mem [of t] obtain k :: int where k: "t = of_int k / 2" by blast
    from range [OF that] have "float_divmod t 1 = (of_int \<lfloor>t\<rfloor>, t - of_int \<lfloor>t\<rfloor>)"
      by (intro float_divmod_one) simp_all
    then have "snd (float_divmod t 1) = t - of_int \<lfloor>t\<rfloor>" by simp
    moreover have "(t - of_int \<lfloor>t\<rfloor> < fl (1 / 100)) = (t - of_int \<lfloor>t\<rfloor> < 1 / 100)"
      unfolding k by (rule half_int_frac)
    ultimately show ?thesis by (simp add: tick_label_def)
  qed
  have labels: "tick_labels m (tick_values m M) =
      map (\<lambda>t. if t = m \<or> t - of_int \<lfloor>t\<rfloor> < 1 / 100
                then seconds_to_duration (Finite t) 3 else Inr []) (tick_values m M)"
    unfolding tick_labels_def by (rule map_cong) (simp_all add: lab)
  have noerr: "\<exists>s. seconds_to_duration (Finite t) 3 = Inr s" if "t \<in> set (tick_values m M)" for t
    using seconds_to_duration_floor_mod [of t 3] range [OF that] by simp
  show ?thesis
    unfolding y_tick_labels_def tv m_def [symmetric] M_def [symmetric]
    using sd mem labels noerr by blast
qed

text \<open>Claim C6 as the specification words it fails: with least time 58.25 and greatest
  time 60.25 the code's ticks include 58.5, which lies below the ceiling of the least
  time, and 60.5, which lies above the greatest time.\<close>

theorem y_ticks_up_to_max_counterexample:
  "min_time edge_rows = 58.25 \<and> max_time edge_rows = 60.25 \<and>
   y_tick_values edge_rows = [58.25, 58.5, 59, 59.5, 60, 60.5] \<and>
   spec_tick_values (min_time edge_rows) (max_time edge_rows) = [58.25, 59, 59.5, 60] \<and>
   y_tick_values edge_rows \<noteq> spec_tick_values (min_time edge_rows) (max_time edge_rows)"
  by code_simp

lemma tick_rows_ticks:
  "y_tick_values tick_rows = [58.25, 58.5, 59, 59.5, 60, 60.5]"
  by code_simp

lemma duration_exact_ms:
  assumes "N < 2 ^ 53"
  shows "seconds_to_duration (Finite (of_nat N / 1000)) 3 =
           Inr (zero_pad 2 (digits_of (N div 60000)) @ CHR '':'' #
                zero_pad 2 (digits_of (N mod 60000 div 1000)) @ CHR ''.'' #
                zero_pad 3 (digits_of (N mod 1000)))"
proof (rule duration_format)
  show "\<bar>of_nat N / 1000 - of_nat N / 1000\<bar> \<le> (2 :: rat) powi (- 40)" by simp
  show "N mod 60000 = 0 \<longrightarrow> (of_nat N / 1000 :: rat) = of_nat N / 1000" by simp
  show "(0 :: rat) \<le> of_nat N / 1000" by simp
  have "(of_nat N :: rat) < of_nat (2 ^ 53)" using assms by (simp only: of_nat_less_iff)
  then show "(of_nat N / 1000 :: rat) < 2 ^ 53" by simp
qed

lemma digit_chars:
  "char_of (48 :: nat) = CHR ''0''" "char_of (49 :: nat) = CHR ''1''"
  "char_of (50 :: nat) = CHR ''2''" "char_of (51 :: nat) = CHR ''3''"
  "char_of (52 :: nat) = CHR ''4''" "char_of (53 :: nat) = CHR ''5''"
  "char_of (54 :: nat) = CHR ''6''" "char_of (55 :: nat) = CHR ''7''"
  "char_of (56 :: nat) = CHR ''8''" "char_of (57 :: nat) = CHR ''9''"
  by code_simp+

theorem y_ticks_half_second_grid_witness:
  "tick_rows \<noteq> [] \<and>
   list_all (\<lambda>row. fl (Time_sec row) = Time_sec row \<and> 0 \<le> Time_sec row \<and> Time_sec row < 2 ^ 40)
     tick_rows \<and>
   y_tick_values tick_rows = [58.25, 58.5, 59, 59.5, 60, 60.5] \<and>
   sorted (y_tick_values tick_rows) \<and> distinct (y_tick_values tick_rows) \<and>
   y_tick_labels tick_rows =
     [Inr ''00:58.250'', Inr [], Inr ''00:59.000'', Inr [], Inr ''01:00.000'', Inr []]"
proof -
  have ne: "tick_rows \<noteq> []" by (simp add: tick_rows_def)
  have fl: "list_all (\<lambda>row. fl (Time_sec row) = Time_sec row \<and> 0 \<le> Time_sec row \<and> Time_sec row < 2 ^ 40)
     tick_rows" by code_simp
  then have hyp: "\<forall>row \<in> set tick_rows.
      fl (Time_sec row) = Time_sec row \<and> 0 \<le> Time_sec row \<and> Time_sec row < 2 ^ 40"
    by (simp only: list_all_iff)
  have m: "min_time tick_rows = 58.25" by code_simp
  have p2: "zero_pad 2 (digits_of 0) = ''00''" "zero_pad 2 (digits_of (Suc 0)) = ''01''"
    "zero_pad 2 (digits_of 58) = ''58''" "zero_pad 2 (digits_of 59) = ''59''"
    using pad2_digits [of 0 0] pad2_digits [of 0 1] pad2_digits [of 5 8] pad2_digits [of 5 9]
    by (simp_all add: digit_chars)
  have p3: "zero_pad 3 (digits_of 0) = ''000''" "zero_pad 3 (digits_of 250) = ''250''"
    using pad3_digits [of 0 0 0] pad3_digits [of 2 5 0] by (simp_all add: digit_chars)
  have s: "seconds_to_duration (Finite 58.25) 3 = Inr ''00:58.250''"
    "seconds_to_duration (Finite 59) 3 = Inr ''00:59.000''"
    "seconds_to_duration (Finite 60) 3 = Inr ''01:00.000''"
    using duration_exact_ms [of 58250] duration_exact_ms [of 59000] duration_exact_ms [of 60000]
    by (simp_all add: p2 p3)
  have c: "\<lfloor>58.5 :: rat\<rfloor> = 58" "\<lfloor>59.5 :: rat\<rfloor> = 59" "\<lfloor>60.5 :: rat\<rfloor> = 60"
    by (simp_all add: floor_unique)
  from y_ticks_half_second_grid [OF ne hyp]
  have "sorted (y_tick_values tick_rows)" "distinct (y_tick_values tick_rows)"
    "y_tick_labels tick_rows =
       map (\<lambda>t. if t = min_time tick_rows \<or> t - of_int \<lfloor>t\<rfloor> < 1 / 100
                 then seconds_to_duration (Finite t) 3 else Inr [])
         (y_tick_values tick_rows)"
    by blast+
  with ne fl tick_rows_ticks m s c show ?thesis by simp
qed
section \<open>Properties of the chart width\<close>

lemma py_max_Max:
  assumes "xs \<noteq> []"
  shows "py_max xs = Max (set xs)"
proof -
  from assms obtain x rest where xs: "xs = x # rest" by (cases xs) auto
  have "py_max xs = fold max rest x" by (simp add: py_max_def xs)
  also have "\<dots> = Max (set (x # rest))" by (simp only: Max.set_eq_fold)
  finally show ?thesis by (simp only: xs)
qed

lemma max_or_zero_Max: "xs \<noteq> [] \<Longrightarrow> max_or_zero xs = Max (set xs)"
  by (simp add: max_or_zero_def py_max_Max)

lemma brand_widths_max:
  assumes "df \<noteq> []" "brand_fastest_time df series"
  shows "brand_max_text_width series df \<noteq> []"
    and "py_max (map snd (brand_max_text_width series df)) = Max (label_length ` set df)"
proof -
  let ?order = "brand_order_simple series df"
  let ?w = "\<lambda>brand. max_or_zero (map label_length (filter (\<lambda>row. Brand row = brand) df))"
  note keys = brand_order_simple_keys [OF assms]
  from assms(1) keys(1) have one: "?order \<noteq> []" by (cases df) auto
  then show ne: "brand_max_text_width series df \<noteq> []" by (simp add: brand_max_text_width_def)
  have vals: "map snd (brand_max_text_width series df) = map ?w ?order"
    by (simp add: brand_max_text_width_def comp_def)
  have w: "?w b = Max (label_length ` {row \<in> set df. Brand row = b})" if "b \<in> Brand ` set df" for b
  proof -
    from that have "map label_length (filter (\<lambda>row. Brand row = b) df) \<noteq> []"
      by (auto simp: filter_empty_conv)
    then have "?w b = Max (set (map label_length (filter (\<lambda>row. Brand row = b) df)))"
      by (rule max_or_zero_Max)
    also have "set (map label_length (filter (\<lambda>row. Brand row = b) df)) =
        label_length ` {row \<in> set df. Brand row = b}" by auto
    finally show ?thesis .
  qed
  have "py_max (map ?w ?order) = Max (set (map ?w ?order))"
    using one by (intro py_max_Max) simp
  also have "\<dots> = Max (label_length ` set df)"
  proof (rule Max_eqI)
    show "finite (set (map ?w ?order))" by simp
  next
    fix y assume "y \<in> set (map ?w ?order)"
    then obtain b where b: "b \<in> Brand ` set df" "y = ?w b" using keys(1) by auto
    from b(1) have ne: "label_length ` {row \<in> set df. Brand row = b} \<noteq> {}" by auto
    have "Max (label_length ` {row \<in> set df. Brand row = b}) \<in> label_length ` {row \<in> set df. Brand row = b}"
      by (rule Max_in) (use ne in auto)
    then have "y \<in> label_length ` set df" using b w [OF b(1)] by auto
    then show "y \<le> Max (label_length ` set df)" by simp
  next
    have "Max (label_length ` set df) \<in> label_length ` set df"
      by (rule Max_in) (use assms(1) in auto)
    then obtain r where r: "r \<in> set df" "label_length r = Max (label_length ` set df)" by auto
    let ?b = "Brand r"
    have fin: "finite (label_length ` {row \<in> set df. Brand row = ?b})" by simp
    have "label_length r \<le> ?w ?b"
      using r(1) w [of ?b] Max_ge [OF fin, of "label_length r"] by auto
    moreover have "?w ?b \<le> Max (label_length ` set df)"
    proof -
      have "Max (label_length ` {row \<in> set df. Brand row = ?b}) \<in> label_length ` {row \<in> set df. Brand row = ?b}"
        by (rule Max_in) (use r(1) in auto)
      then have "?w ?b \<in> label_length ` set df" using w [of ?b] r(1) by auto
      then show ?thesis by simp
    qed
    ultimately have "?w ?b = Max (label_length ` set df)" using r(2) by simp
    moreover have "?w ?b \<in> set (map ?w ?order)" using keys(1) r(1) by auto
    ultimately show "Max (label_length ` set df) \<in> set (map ?w ?order)" by simp
  qed
  finally show "py_max (map snd (brand_max_text_width series df)) = Max (label_length ` set df)"
    by (simp only: vals)
qed

lemma num_brands_card:
  assumes "df \<noteq> []" "brand_fastest_time df series"
  shows "length (brand_order_simple series df) = card (Brand ` set df)"
  by (rule brand_order_simple_keys(3) [OF assms])

lemma char_width_bounds:
  "1 / 16 \<le> fl (8 / 100)" "\<bar>fl (8 / 100) - 8 / 100\<bar> \<le> 1 / 2 ^ 57" "fl (8 / 100) \<le> 1 / 8"
  by code_simp+

lemma clamp_close:
  fixes a b e :: rat
  assumes "\<bar>a - b\<bar> \<le> e"
  shows "\<bar>min 1600 (max 900 a) - min 1600 (max 900 b)\<bar> \<le> e"
  using assms by (simp add: min_def max_def) linarith

lemma width_float_error:
  fixes n L :: nat
  assumes n: "500 \<le> n"
  defines "w \<equiv> fl (fl (of_nat n) + fl (fl (fl (of_nat L) * fl (8 / 100)) * 200))"
  shows "\<bar>min 1600 (max 900 w) - min 1600 (max 900 (of_nat n + of_nat L * (8 / 100) * 200))\<bar>
           \<le> 1 / 2 ^ 40"
proof -
  define c :: rat where "c = fl (8 / 100)"
  define x1 where "x1 = fl (fl (of_nat L) * c)"
  define x2 where "x2 = fl (x1 * 200)"
  have w: "w = fl (fl (of_nat n) + x2)" by (simp add: w_def x2_def x1_def c_def)
  note cb = char_width_bounds [folded c_def]
  have c0: "0 \<le> c" using cb(1) by simp
  have L0: "(0 :: rat) \<le> fl (of_nat L)" by (rule fl_nonneg) simp
  have x10: "0 \<le> x1" unfolding x1_def by (rule fl_nonneg) (simp add: L0 c0)
  have x20: "0 \<le> x2" unfolding x2_def by (rule fl_nonneg) (simp add: x10)
  have n0: "(0 :: rat) \<le> fl (of_nat n)" by (rule fl_nonneg) simp
  have f1600: "fl 1600 = 1600" using fl_of_nat [of 1600] by simp
  have f1700: "fl 1700 = 1700" using fl_of_nat [of 1700] by simp
  have f500: "fl 500 = 500" using fl_of_nat [of 500] by simp
  have f100: "fl 100 = 100" using fl_of_nat [of 100] by simp
  have f6: "fl 6 = 6" using fl_of_nat [of 6] by simp
  have f1200: "fl 1200 = 1200" using fl_of_nat [of 1200] by simp
  consider (wide) "1600 \<le> n" | (long) "100 \<le> L" | (small) "n < 1600" "L < 100" by linarith
  then show ?thesis
  proof cases
    case wide
    then have "(1600 :: rat) \<le> of_nat n" by simp
    then have "fl 1600 \<le> fl (of_nat n)" by (intro fl_mono) simp_all
    then have "1600 \<le> fl (of_nat n) + x2" using x20 f1600 by simp
    then have "fl 1600 \<le> w" unfolding w by (intro fl_mono) simp_all
    then have a: "1600 \<le> w" using f1600 by simp
    have "(1600 :: rat) \<le> of_nat n + of_nat L * (8 / 100) * 200"
      using \<open>(1600 :: rat) \<le> of_nat n\<close> by simp
    with a show ?thesis by (simp add: min_def max_def)
  next
    case long
    then have Lr: "(100 :: rat) \<le> of_nat L" by simp
    then have "fl 100 \<le> fl (of_nat L)" by (intro fl_mono) simp_all
    then have "100 \<le> fl (of_nat L)" using f100 by simp
    then have "100 * (1 / 16) \<le> fl (of_nat L) * c" using cb(1) by (intro mult_mono) simp_all
    then have "6 \<le> fl (of_nat L) * c" by simp
    then have "fl 6 \<le> x1" unfolding x1_def by (intro fl_mono) simp_all
    then have "1200 \<le> x1 * 200" using f6 by simp
    then have "fl 1200 \<le> x2" unfolding x2_def by (intro fl_mono) simp_all
    then have x2: "1200 \<le> x2" using f1200 by simp
    from n have nr: "(500 :: rat) \<le> of_nat n" by simp
    then have "fl 500 \<le> fl (of_nat n)" by (intro fl_mono) simp_all
    then have "1700 \<le> fl (of_nat n) + x2" using x2 f500 by simp
    then have "fl 1700 \<le> w" unfolding w by (intro fl_mono) simp_all
    then have a: "1600 \<le> w" using f1700 by simp
    have "(1600 :: rat) \<le> of_nat n + of_nat L * (8 / 100) * 200" using nr Lr by simp
    with a show ?thesis by (simp add: min_def max_def)
  next
    case small
    have fn: "fl (of_nat n) = (of_nat n :: rat)" by (rule fl_of_nat) (use small in simp)
    have fL: "fl (of_nat L) = (of_nat L :: rat)" by (rule fl_of_nat) (use small in simp)
    define l :: rat where "l = of_nat L"
    define k :: rat where "k = of_nat n"
    have l: "0 \<le> l" "l \<le> 100" using small by (simp_all add: l_def)
    have k: "0 \<le> k" "k \<le> 1600" using small by (simp_all add: k_def)
    define t :: rat where "t = l * (8 / 100)"
    have t: "0 \<le> t" "t \<le> 8" using l by (simp_all add: t_def)
    define E1 :: rat where "E1 = 1 / 2 ^ 50 + 100 / 2 ^ 57"
    define E2 :: rat where "E2 = 1 / 2 ^ 43 + 200 * E1"
    define E3 :: rat where "E3 = 1 / 2 ^ 42 + E2"
    have E: "E1 \<le> 1" "E2 \<le> 1" "E3 \<le> 1 / 2 ^ 40" by (simp_all add: E1_def E2_def E3_def)
    define p1 where "p1 = l * c"
    have "l * c \<le> 100 * (1 / 8)" using l cb(3) c0 by (intro mult_mono) simp_all
    then have p1: "0 \<le> p1" "p1 < 2 powi 4" using l c0 by (simp_all add: p1_def)
    have e1: "\<bar>fl p1 - p1\<bar> \<le> 2 powi (4 - 54)" by (rule fl_error_small [OF p1]) simp
    have "p1 - t = l * (c - 8 / 100)" by (simp add: p1_def t_def algebra_simps)
    then have "\<bar>p1 - t\<bar> = \<bar>l\<bar> * \<bar>c - 8 / 100\<bar>" by (simp only: abs_mult)
    also have "\<dots> = l * \<bar>c - 8 / 100\<bar>" using l(1) by simp
    also have "\<dots> \<le> 100 * (1 / 2 ^ 57)" using l cb(2) by (intro mult_mono) simp_all
    finally have d1: "\<bar>p1 - t\<bar> \<le> 100 / 2 ^ 57" by simp
    have x1: "x1 = fl p1" by (simp add: x1_def fL p1_def l_def)
    have e1': "\<bar>x1 - p1\<bar> \<le> 1 / 2 ^ 50" using e1 by (simp add: x1 power_int_minus)
    have x1b: "\<bar>x1 - t\<bar> \<le> E1" unfolding E1_def using e1' d1 by linarith
    have "x1 \<le> 9" using x1b t E(1) by linarith
    define p2 where "p2 = x1 * 200"
    have p2: "0 \<le> p2" "p2 < 2 powi 11" using x10 \<open>x1 \<le> 9\<close> by (simp_all add: p2_def)
    have e2: "\<bar>fl p2 - p2\<bar> \<le> 2 powi (11 - 54)" by (rule fl_error_small [OF p2]) simp
    have x2: "x2 = fl p2" by (simp add: x2_def p2_def)
    have e2': "\<bar>x2 - p2\<bar> \<le> 1 / 2 ^ 43" using e2 by (simp add: x2 power_int_minus)
    have x2b: "\<bar>x2 - t * 200\<bar> \<le> E2" unfolding E2_def p2_def using e2' x1b
      unfolding p2_def by linarith
    have "x2 \<le> 1601" using x2b t E(2) by linarith
    define p3 where "p3 = k + x2"
    have p3: "0 \<le> p3" "p3 < 2 powi 12" using k x20 \<open>x2 \<le> 1601\<close> by (simp_all add: p3_def)
    have e3: "\<bar>fl p3 - p3\<bar> \<le> 2 powi (12 - 54)" by (rule fl_error_small [OF p3]) simp
    have w3: "w = fl p3" by (simp add: w fn p3_def k_def)
    have e3': "\<bar>w - p3\<bar> \<le> 1 / 2 ^ 42" using e3 by (simp add: w3 power_int_minus)
    have "\<bar>w - (k + t * 200)\<bar> \<le> E3" unfolding E3_def using e3' x2b unfolding p3_def by linarith
    then have "\<bar>w - (k + t * 200)\<bar> \<le> 1 / 2 ^ 40" using E(3) by linarith
    then show ?thesis unfolding k_def l_def t_def by (rule clamp_close)
  qed
qed

text \<open>
  Claim C5. For a non-empty frame, whatever order the sort leaves among equal values, the
  width is the content width cut to the interval from 900 to 1600, and the content width
  is the number of distinct brands times 100, plus 500, plus the greatest label length of
  the frame (the greatest over the brands of the greatest over each brand's rows) times
  0.08 times 200, computed in float arithmetic; the width so computed differs from the
  same formula in exact arithmetic by at most \<open>2^-40\<close>. For the empty frame the brand order
  is empty, the label width is 0 and the width is 900. In every case the width lies
  between 900 and 1600.
\<close>

theorem chart_width_clamped:
  "900 \<le> responsive_width series df \<and> responsive_width series df \<le> 1600 \<and>
   brand_order_simple series [] = [] \<and> max_brand_width series [] = 0 \<and>
   responsive_width series [] = 900 \<and>
   (df \<noteq> [] \<and> brand_fastest_time df series \<longrightarrow>
      responsive_width series df =
        min 1600 (max 900
          (fl (fl (of_nat (card (Brand ` set df) * 100 + 500)) +
               fl (fl (fl (of_nat (Max (label_length ` set df))) * fl (8 / 100)) * 200)))) \<and>
      \<bar>responsive_width series df -
         min 1600 (max 900
           (of_nat (card (Brand ` set df) * 100 + 500) +
            of_nat (Max (label_length ` set df)) * (8 / 100) * 200))\<bar> \<le> 1 / 2 ^ 40)"
proof (intro conjI impI)
  show "900 \<le> responsive_width series df" by (simp add: responsive_width_def)
  show "responsive_width series df \<le> 1600" by (simp add: responsive_width_def)
  show "brand_order_simple series [] = []" by (simp add: brand_order_simple_def)
  show "max_brand_width series [] = 0" by (simp add: max_brand_width_def)
  show "responsive_width series [] = 900" by (simp add: responsive_width_def)
next
  assume a: "df \<noteq> [] \<and> brand_fastest_time df series"
  then have ne: "df \<noteq> []" and bft: "brand_fastest_time df series" by simp_all
  note w = brand_widths_max [OF ne bft]
  have m: "max_brand_width series df = fl (fl (of_nat (Max (label_length ` set df))) * fl (8 / 100))"
    using ne w by (simp add: max_brand_width_def char_width_def)
  show eq: "responsive_width series df =
        min 1600 (max 900
          (fl (fl (of_nat (card (Brand ` set df) * 100 + 500)) +
               fl (fl (fl (of_nat (Max (label_length ` set df))) * fl (8 / 100)) * 200))))"
    using ne by (simp add: responsive_width_def content_width_def m num_brands_card [OF ne bft])
  have "500 \<le> card (Brand ` set df) * 100 + 500" by simp
  then show "\<bar>responsive_width series df -
         min 1600 (max 900
           (of_nat (card (Brand ` set df) * 100 + 500) +
            of_nat (Max (label_length ` set df)) * (8 / 100) * 200))\<bar> \<le> 1 / 2 ^ 40"
    unfolding eq by (rule width_float_error)
qed

theorem chart_width_clamped_witness:
  "abc_rows \<noteq> [] \<and>
   brand_fastest_time abc_rows [(''BrandC'', 58.2), (''BrandB'', 58.2), (''BrandA'', 61)] \<and>
   responsive_width [(''BrandC'', 58.2), (''BrandB'', 58.2), (''BrandA'', 61)] abc_rows = 928 \<and>
   (3 * 100 + 500 + 8 * (8 / 100) * 200 :: rat) = 928 \<and>
   900 \<le> responsive_width [(''BrandC'', 58.2), (''BrandB'', 58.2), (''BrandA'', 61)] abc_rows \<and>
   responsive_width [(''BrandC'', 58.2), (''BrandB'', 58.2), (''BrandA'', 61)] abc_rows \<le> 1600"
proof -
  let ?s = "[(''BrandC'', 58.2 :: rat), (''BrandB'', 58.2), (''BrandA'', 61)]"
  have ne: "abc_rows \<noteq> []" by (simp add: abc_rows_def)
  have g: "groupby_min abc_rows = [(''BrandA'', 61), (''BrandB'', 58.2), (''BrandC'', 58.2)]"
    by code_simp
  have bft: "brand_fastest_time abc_rows ?s"
    by (simp add: brand_fastest_time_def sort_values_def g)
  have c: "card (Brand ` set abc_rows) = 3" by code_simp
  have l: "Max (label_length ` set abc_rows) = 8" by code_simp
  have e: "fl (fl 800 + fl (fl (fl 8 * fl (2 / 25)) * 200)) = (928 :: rat)" by code_simp
  from chart_width_clamped [of ?s abc_rows] ne bft
  have "responsive_width ?s abc_rows =
        min 1600 (max 900
          (fl (fl (of_nat (card (Brand ` set abc_rows) * 100 + 500)) +
               fl (fl (fl (of_nat (Max (label_length ` set abc_rows))) * fl (8 / 100)) * 200))))"
    by blast
  then have "responsive_width ?s abc_rows = 928" by (simp add: c l e)
  with ne bft show ?thesis by simp
qed
end
